theory Spec2Isabelle
  imports Main "HOL-Library.AList"
begin

text \<open>
  A shallow embedding of the completion front end of the \<^verbatim>\<open>peek\<close> shell: the
  completer of \<^verbatim>\<open>peek/completer.py\<close> with its path-template matching and its
  loader of the REST API specification, and the two lexers of \<^verbatim>\<open>peek/lexers.py\<close>
  on top of a model of the rule-table engine that runs them. The definitions come first,
  in the order of the sources; the properties follow, one section for each group of
  functions.
\<close>

section \<open>Strings as the completer uses them\<close>

text \<open>
  Python strings are modelled as HOL strings (lists of characters). The helpers below are
  the string methods that \<^verbatim>\<open>peek/completer.py\<close> calls.
\<close>

text \<open>\<^verbatim>\<open>s.startswith(prefix)\<close>.\<close>

definition startswith :: "string \<Rightarrow> string \<Rightarrow> bool" where
  "startswith s pre = (take (length pre) s = pre)"

text \<open>\<^verbatim>\<open>s.endswith(suffix)\<close>.\<close>

definition endswith :: "string \<Rightarrow> string \<Rightarrow> bool" where
  "endswith s suf = (drop (length s - length suf) s = suf)"

text \<open>
  \<^verbatim>\<open>s.split(sep)\<close> for a one-character separator: every occurrence of the separator
  ends a piece, empty pieces are kept, and the empty string gives one empty piece.
\<close>

fun split :: "char \<Rightarrow> string \<Rightarrow> string list" where
  "split sep [] = [[]]"
| "split sep (c # cs) =
     (if c = sep then [] # split sep cs
      else (c # hd (split sep cs)) # tl (split sep cs))"

text \<open>\<^verbatim>\<open>sep.join(parts)\<close>.\<close>

fun join :: "string \<Rightarrow> string list \<Rightarrow> string" where
  "join sep [] = []"
| "join sep [p] = p"
| "join sep (p # q # ps) = p @ sep @ join sep (q # ps)"

section \<open>Matching typed path segments against a template\<close>

text \<open>
  \<^verbatim>\<open>can_match(ts, ps)\<close> of \<^verbatim>\<open>peek/completer.py\<close>: the loop runs over
  \<^verbatim>\<open>zip(ts, ps)\<close>, so it ends with the shorter list, and each early
  \<^verbatim>\<open>return False\<close> is a branch.
\<close>

fun can_match :: "string list \<Rightarrow> string list \<Rightarrow> bool" where
  "can_match (t # ts) (p # ps) =
     (if t \<noteq> p then
        (if startswith t ''_'' then False
         else if \<not> (startswith p ''{'' \<and> endswith p ''}'') then False
         else can_match ts ps)
      else can_match ts ps)"
| "can_match _ _ = True"

text \<open>The condition that one paired position has to meet, written out for the proofs below.\<close>

definition segment_ok :: "string \<Rightarrow> string \<Rightarrow> bool" where
  "segment_ok t p = (t = p \<or> (\<not> startswith t ''_'' \<and> startswith p ''{'' \<and> endswith p ''}''))"

section \<open>Tokens, documents and the data the completer reads\<close>

text \<open>
  Token kinds. The first group are the Pygments token types that
  \<^verbatim>\<open>peek/lexers.py\<close> names in its rule tables (with the aliases it declares
  for the punctuation kinds), together with \<^verbatim>\<open>Error\<close> and \<^verbatim>\<open>Name\<close>,
  which the completer imports from \<^verbatim>\<open>pygments.token\<close>. Token types are compared by
  identity in the source, so \<^verbatim>\<open>Name\<close> and \<^verbatim>\<open>Name.Builtin\<close> are different
  kinds.
\<close>

text \<open>
  Modelled from the spec: the kinds of the second group (\<open>HttpMethod\<close> to
  \<open>ParamValue\<close>) are imported by \<^verbatim>\<open>peek/completer.py\<close> from
  \<^verbatim>\<open>peek.lexers\<close>, but their declarations are missing from the
  \<^verbatim>\<open>peek/lexers.py\<close> at hand; the specification lists them in its closed
  enumeration of token kinds, each a kind of its own.
\<close>

datatype ttype =
    Error | Whitespace | CommentSingle | Keyword | Literal | Name | NameBuiltin
  | Percent | CurlyLeft | CurlyRight | BracketLeft | BracketRight | Comma | Colon
  | StringSymbol | StringDouble | StringSingle | StringEscape
  | NumberFloat | NumberOct | NumberBin | NumberHex | NumberIntegerLong | NumberInteger
  | HttpMethod | FuncName | BlankLine | KeyName | Assign
  | PathPart | Slash | QuestionMark | Ampersand | ParamName | ParamValue

text \<open>
  A token as the completer reads it: \<^verbatim>\<open>t.ttype\<close>, \<^verbatim>\<open>t.value\<close> and
  \<^verbatim>\<open>t.index\<close>, the offset of its first character.
\<close>

record token =
  ttype :: ttype
  value' :: string
  index :: nat

text \<open>
  The document of the line editor: the whole text and the cursor offset, which the editor
  keeps within \<open>0\<close> and the length of the text.
\<close>

record document =
  text' :: string
  cursor_position :: nat

text \<open>\<^verbatim>\<open>Completion(text, start_position=...)\<close>.\<close>

datatype completion = Completion string int

text \<open>
  One entry of the REST API specification: \<^verbatim>\<open>api_spec['url']['paths']\<close> is a list
  of path templates, each with its \<^verbatim>\<open>'path'\<close> and its \<^verbatim>\<open>'methods'\<close>, and
  \<^verbatim>\<open>api_spec.get('params')\<close> is the dictionary of the declared parameters, of
  which the completer reads the keys only (\<open>None\<close> when the entry has no such key).
  The specification as a whole is a dictionary from endpoint names to entries, kept as the
  list of its items in iteration order.
\<close>

record api_path =
  path :: string
  methods :: "string list"

record api_url =
  paths :: "api_path list"

record api_spec =
  url :: api_url
  params :: "string list option"

type_synonym api_specs = "(string \<times> api_spec) list"

text \<open>
  The function registry \<^verbatim>\<open>NAMES\<close> of \<^verbatim>\<open>peek.names\<close> is not part of the
  sources at hand, so it is a parameter: the list of its items, each function with its
  optional attribute \<^verbatim>\<open>option_names\<close>.
\<close>

record func =
  option_names :: "string list option"

type_synonym names = "(string \<times> func) list"

text \<open>
  What a completion function returns. The filtering completers of the line-editing library
  (\<^verbatim>\<open>WordCompleter\<close>, \<^verbatim>\<open>FuzzyCompleter\<close>) are not code of this repository;
  a result records which of them is called and with which candidates:
  \<^item> \<open>Empty_List\<close>: \<^verbatim>\<open>return []\<close>;
  \<^item> \<open>None_Value\<close>: the body ends without a \<^verbatim>\<open>return\<close>, so the value is
    \<^verbatim>\<open>None\<close>, which is not iterable;
  \<^item> \<open>Word_Completer ws ic\<close>:
    \<^verbatim>\<open>WordCompleter(ws, ignore_case=ic).get_completions(document, complete_event)\<close>;
  \<^item> \<open>Fuzzy_Completer cs\<close>:
    \<^verbatim>\<open>FuzzyCompleter(ConstantCompleter(cs)).get_completions(document, complete_event)\<close>;
  \<^item> \<open>Fuzzy_Completer_Set cs\<close>: the same for candidates listed from a Python set,
    whose iteration order is not fixed;
  \<^item> \<open>Chain a b\<close>: \<^verbatim>\<open>itertools.chain(a, b)\<close>.
\<close>

datatype completions =
    Empty_List
  | None_Value
  | Word_Completer "string list" bool
  | Fuzzy_Completer "completion list"
  | Fuzzy_Completer_Set "completion set"
  | Chain completions completions

text \<open>The exceptions that the modelled code can raise.\<close>

datatype py_error = IndexError | JSONDecodeError

section \<open>Path and query-parameter completion\<close>

text \<open>
  \<^verbatim>\<open>[p for p in api_path['path'].split('/') if p]\<close>: the segments of a template.
\<close>

definition path_segments :: "string \<Rightarrow> string list" where
  "path_segments p = filter (\<lambda>s. s \<noteq> []) (split CHR ''/'' p)"

text \<open>
  The two nested loops of \<^verbatim>\<open>_complete_path_part\<close>, with the list
  \<^verbatim>\<open>candidates\<close> as an accumulator: each \<^verbatim>\<open>continue\<close> leaves it as it is.
\<close>

fun path_part_paths ::
  "string \<Rightarrow> string list \<Rightarrow> api_path list \<Rightarrow> completion list \<Rightarrow> completion list" where
  "path_part_paths method ts [] candidates = candidates"
| "path_part_paths method ts (api_path # rest) candidates =
     (if method \<notin> set (methods api_path) then path_part_paths method ts rest candidates
      else
        let ps = path_segments (path api_path) in
        if length ts \<ge> length ps then path_part_paths method ts rest candidates
        else if \<not> can_match ts ps then path_part_paths method ts rest candidates
        else path_part_paths method ts rest
               (candidates @ [Completion (join ''/'' (drop (length ts) ps)) 0]))"

fun path_part_specs ::
  "string \<Rightarrow> string list \<Rightarrow> api_specs \<Rightarrow> completion list \<Rightarrow> completion list" where
  "path_part_specs method ts [] candidates = candidates"
| "path_part_specs method ts ((api_name, api_spec) # rest) candidates =
     path_part_specs method ts rest
       (path_part_paths method ts (paths (url api_spec)) candidates)"

text \<open>
  \<^verbatim>\<open>_complete_path_part\<close>. \<^verbatim>\<open>path_tokens[-1]\<close> raises on an empty list.
  When the cursor token is a \<open>PathPart\<close> it is itself the last element of \<open>ts\<close>, so
  \<^verbatim>\<open>ts.pop()\<close> removes it.
\<close>

definition complete_path_part ::
  "api_specs \<Rightarrow> string \<Rightarrow> token list \<Rightarrow> py_error + completions" where
  "complete_path_part specs method path_tokens =
     (if path_tokens = [] then Inl IndexError
      else
        let cursor_token = last path_tokens;
            ts = map value' (filter (\<lambda>t. ttype t \<noteq> Slash) path_tokens);
            ts = (if ttype cursor_token = PathPart then butlast ts else ts)
        in Inr (Fuzzy_Completer (path_part_specs method ts specs [])))"

text \<open>
  The loops of \<^verbatim>\<open>_complete_query_param_name\<close>, with the set
  \<^verbatim>\<open>candidates\<close> as an accumulator. \<^verbatim>\<open>not api_spec.get('params', None)\<close>
  holds for a missing and for an empty dictionary.
\<close>

fun query_param_paths ::
  "string \<Rightarrow> string list \<Rightarrow> api_spec \<Rightarrow> api_path list \<Rightarrow> string set \<Rightarrow> string set" where
  "query_param_paths method ts api_spec [] candidates = candidates"
| "query_param_paths method ts api_spec (api_path # rest) candidates =
     (if method \<notin> set (methods api_path) then
        query_param_paths method ts api_spec rest candidates
      else if params api_spec = None \<or> params api_spec = Some [] then
        query_param_paths method ts api_spec rest candidates
      else
        let ps = path_segments (path api_path) in
        if length ts \<noteq> length ps then query_param_paths method ts api_spec rest candidates
        else if \<not> can_match ts ps then query_param_paths method ts api_spec rest candidates
        else query_param_paths method ts api_spec rest
               (candidates \<union> set (the (params api_spec))))"

fun query_param_specs ::
  "string \<Rightarrow> string list \<Rightarrow> api_specs \<Rightarrow> string set \<Rightarrow> string set" where
  "query_param_specs method ts [] candidates = candidates"
| "query_param_specs method ts ((api_name, api_spec) # rest) candidates =
     query_param_specs method ts rest
       (query_param_paths method ts api_spec (paths (url api_spec)) candidates)"

definition complete_query_param_name ::
  "api_specs \<Rightarrow> string \<Rightarrow> token list \<Rightarrow> py_error + completions" where
  "complete_query_param_name specs method path_tokens =
     (if path_tokens = [] then Inl IndexError
      else
        let ts = map value' (filter (\<lambda>t. ttype t = PathPart) path_tokens)
        in Inr (Fuzzy_Completer_Set
                  ((\<lambda>c. Completion c 0) ` query_param_specs method ts specs {})))"

section \<open>Option completion and the dispatch of \<open>get_completions\<close>\<close>

text \<open>
  The backward scan of \<^verbatim>\<open>_complete_options\<close>, over \<^verbatim>\<open>tokens[::-1]\<close>. When
  the loop ends without having met one of the three kinds, the function body ends without a
  \<^verbatim>\<open>return\<close>.
\<close>

fun scan_options :: "names \<Rightarrow> token list \<Rightarrow> completions" where
  "scan_options names [] = None_Value"
| "scan_options names (t # ts) =
     (if ttype t = HttpMethod then
        Word_Completer (map (\<lambda>w. w @ ''='') [''conn'', ''runas'']) False
      else if ttype t = FuncName then
        (case map_of names (value' t) of
           None \<Rightarrow> Empty_List
         | Some func \<Rightarrow>
             (case option_names func of
                None \<Rightarrow> Empty_List
              | Some ns \<Rightarrow>
                  if ns = [] then Empty_List
                  else Word_Completer (map (\<lambda>n. n @ ''='') ns) False))
      else if ttype t = BlankLine then Empty_List
      else scan_options names ts)"

definition complete_options :: "names \<Rightarrow> token list \<Rightarrow> completions" where
  "complete_options names tokens =
     (if length tokens > 0 \<and> ttype (last tokens) = Assign then Empty_List
      else scan_options names (rev tokens))"

text \<open>
  \<^verbatim>\<open>s.upper()\<close>, on ASCII text: the letters \<open>a\<close> to \<open>z\<close> are mapped to
  \<open>A\<close> to \<open>Z\<close> and other characters are left as they are. The letters beyond
  ASCII, which \<^verbatim>\<open>str.upper\<close> maps as well, are not modelled; the method names of
  the specification files are ASCII.
\<close>

definition upper :: "string \<Rightarrow> string" where
  "upper s =
     map (\<lambda>c. if 97 \<le> (of_char c :: nat) \<and> (of_char c :: nat) \<le> 122
              then char_of ((of_char c :: nat) - 32) else c) s"

text \<open>
  \<^verbatim>\<open>s[:n]\<close> for an integer \<open>n\<close>: a negative bound counts from the end of the
  string.
\<close>

definition slice_to :: "string \<Rightarrow> int \<Rightarrow> string" where
  "slice_to s n = (if n < 0 then take (nat (int (length s) + n)) s else take (nat n) s)"

text \<open>
  \<^verbatim>\<open>_complete_path\<close>. The URL sub-lexer \<^verbatim>\<open>UrlPathLexer\<close> is not part of the
  sources at hand, so its \<^verbatim>\<open>get_tokens_unprocessed\<close> is the parameter
  \<open>url_path_lexer\<close>. \<^verbatim>\<open>tokens[-2]\<close> raises when there are fewer than two
  tokens.
\<close>

definition complete_path ::
  "(string \<Rightarrow> token list) \<Rightarrow> api_specs \<Rightarrow> token list \<Rightarrow> document \<Rightarrow> py_error + completions"
  where
  "complete_path url_path_lexer specs tokens doc =
     (if length tokens < 2 then Inl IndexError
      else
        let method_token = tokens ! (length tokens - 2);
            path_token = last tokens;
            method = upper (value' method_token);
            cursor_position = int (cursor_position doc) - int (index path_token);
            path = slice_to (value' path_token) cursor_position;
            path_tokens = url_path_lexer path
        in
          if path_tokens = [] then Inr Empty_List
          else
            let cursor_token = last path_tokens in
            if ttype cursor_token \<in> {PathPart, Slash} then
              complete_path_part specs method path_tokens
            else if ttype cursor_token \<in> {ParamName, QuestionMark, Ampersand} then
              complete_query_param_name specs method path_tokens
            else Inr Empty_List)"

text \<open>
  The test of the search loop of \<^verbatim>\<open>get_completions\<close>,
  \<^verbatim>\<open>t.index < document.cursor_position <= (t.index + len(t.value))\<close>.
\<close>

definition covers :: "nat \<Rightarrow> token \<Rightarrow> bool" where
  "covers cursor t = (index t < cursor \<and> cursor \<le> index t + length (value' t))"

text \<open>
  The search loop itself: the first token that passes the test, with its position \<open>i\<close>;
  \<open>None\<close> when the loop runs into its \<^verbatim>\<open>else\<close> branch.
\<close>

fun find_token :: "token list \<Rightarrow> nat \<Rightarrow> nat \<Rightarrow> (nat \<times> token) option" where
  "find_token [] cursor i = None"
| "find_token (t # ts) cursor i =
     (if covers cursor t then Some (i, t) else find_token ts cursor (Suc i))"

text \<open>
  \<^verbatim>\<open>get_completions\<close>. The normalised token stream
  \<^verbatim>\<open>process_tokens(self.lexer.get_tokens_unprocessed(text))\<close> is computed by code that
  is not part of the sources at hand (\<^verbatim>\<open>peek.parser\<close>, and the lexer that emits the
  kinds the completer tests for), so it is the parameter \<open>tokenize\<close>, applied to the text
  before the cursor.
\<close>

definition get_completions ::
  "(string \<Rightarrow> token list) \<Rightarrow> (string \<Rightarrow> token list) \<Rightarrow> names \<Rightarrow> api_specs \<Rightarrow> document
     \<Rightarrow> py_error + completions" where
  "get_completions tokenize url_path_lexer names specs doc =
     (let text = take (cursor_position doc) (text' doc);
          tokens = tokenize text
      in
        if length tokens = 0 then Inr Empty_List
        else
          case find_token tokens (cursor_position doc) 0 of
            None \<Rightarrow>
              if CHR 0x0A \<in> set (drop (index (last tokens) + length (value' (last tokens))) text)
              then Inr Empty_List
              else Inr (complete_options names tokens)
          | Some (i, t) \<Rightarrow>
              if ttype t \<in> {HttpMethod, FuncName} then
                Inr (Chain (Word_Completer [''GET'', ''POST'', ''PUT'', ''DELETE''] True)
                           (Word_Completer (map fst names) False))
              else if i > 0 \<and> ttype (tokens ! (i - 1)) = HttpMethod then
                complete_path url_path_lexer specs tokens doc
              else if ttype t \<in> {Error, KeyName, Name} then
                Inr (complete_options names (butlast tokens))
              else Inr Empty_List)"

section \<open>Loading the REST API specification\<close>

text \<open>
  A Python dictionary is kept as the list of its items in iteration order.
  \<^verbatim>\<open>d.update(other)\<close> stores the items of \<open>other\<close> one by one: the value of a key
  that is present is replaced where it stands, a new key is added at the end.
\<close>

definition dict_update :: "('k \<times> 'v) list \<Rightarrow> ('k \<times> 'v) list \<Rightarrow> ('k \<times> 'v) list" where
  "dict_update d other = fold (\<lambda>(k, v) acc. AList.update k v acc) other d"

text \<open>
  The file system as \<^verbatim>\<open>load_rest_api_spec\<close> reads it: the specification directory
  is missing (\<open>None\<close>), or it is listed as its files in the order of
  \<^verbatim>\<open>os.listdir\<close>, each with what \<^verbatim>\<open>json.load\<close> makes of it: the items of a
  JSON object, or \<open>None\<close> when the file is not valid JSON and \<^verbatim>\<open>json.load\<close>
  raises.
\<close>

type_synonym 'v spec_file = "string \<times> (string \<times> 'v) list option"

text \<open>A record of the logger.\<close>

datatype log_record = Warning string

text \<open>
  The loop of \<^verbatim>\<open>load_rest_api_spec\<close> over \<^verbatim>\<open>spec_files\<close>, with the
  dictionary \<^verbatim>\<open>specs\<close> as an accumulator.
\<close>

fun load_spec_files :: "'v spec_file list \<Rightarrow> (string \<times> 'v) list \<Rightarrow> py_error + (string \<times> 'v) list"
  where
  "load_spec_files [] specs = Inr specs"
| "load_spec_files ((spec_file, content) # rest) specs =
     (if spec_file = ''_common.json'' then load_spec_files rest specs
      else
        case content of
          None \<Rightarrow> Inl JSONDecodeError
        | Some d \<Rightarrow> load_spec_files rest (dict_update specs d))"

text \<open>
  \<^verbatim>\<open>load_rest_api_spec\<close>, for the path \<open>spec_dir\<close> and what the file system holds
  there. The result comes with the records that were logged.
\<close>

definition load_rest_api_spec ::
  "string \<Rightarrow> 'v spec_file list option \<Rightarrow> (py_error + (string \<times> 'v) list) \<times> log_record list"
  where
  "load_rest_api_spec spec_dir dir =
     (case dir of
        None \<Rightarrow> (Inr [], [Warning (''spec directory does not exist: '' @ spec_dir)])
      | Some listing \<Rightarrow>
          let spec_files = filter (\<lambda>f. endswith (fst f) ''.json'') listing
          in (load_spec_files spec_files [], []))"

section \<open>Regular expressions as the lexers use them\<close>

text \<open>
  The lexers of \<^verbatim>\<open>peek/lexers.py\<close> are rule tables for the \<^verbatim>\<open>RegexLexer\<close> of
  the Pygments library, which applies Python regular expressions at the current position of
  the text. The fragment of regular expressions that the tables use is modelled with
  Python's semantics: alternatives are tried from left to right, repetition is greedy, and
  a failure further on makes the matcher come back and try the next shorter repetition or
  the next alternative. Characters are those with code points below 256.
\<close>

datatype regex =
    Eps
  | Chr "char \<Rightarrow> bool"
  | Star "char \<Rightarrow> bool"
  | Plus "char \<Rightarrow> bool"
  | Seq regex regex
  | Alt regex regex
  | Opt regex
  | Bol
  | Word_Boundary
  | Group nat regex

text \<open>
  The state of a match attempt: the text before the current position (last character
  first), the text from the current position on, and for each capturing group that has
  been closed its number, the offset where it started and the text it matched.
\<close>

type_synonym groups = "(nat \<times> nat \<times> string) list"
type_synonym mstate = "string \<times> string \<times> groups"

text \<open>
  \<^verbatim>\<open>\w\<close>, \<^verbatim>\<open>\s\<close> and \<^verbatim>\<open>\d\<close> for Python strings, on the code points below 256:
  a word character is alphanumeric or the underscore.
\<close>

definition is_word :: "char \<Rightarrow> bool" where
  "is_word c =
     (let n = (of_char c :: nat) in
      (48 \<le> n \<and> n \<le> 57) \<or> (65 \<le> n \<and> n \<le> 90) \<or> n = 95 \<or> (97 \<le> n \<and> n \<le> 122)
      \<or> n \<in> {170, 178, 179, 181, 185, 186, 188, 189, 190}
      \<or> (192 \<le> n \<and> n \<le> 214) \<or> (216 \<le> n \<and> n \<le> 246) \<or> (248 \<le> n \<and> n \<le> 255))"

definition is_space :: "char \<Rightarrow> bool" where
  "is_space c = ((of_char c :: nat) \<in> {9, 10, 11, 12, 13, 28, 29, 30, 31, 32, 133, 160})"

definition is_digit :: "char \<Rightarrow> bool" where
  "is_digit c = (48 \<le> (of_char c :: nat) \<and> (of_char c :: nat) \<le> 57)"

text \<open>
  A greedy repetition of a character class, followed by the continuation \<open>k\<close>: the
  longest run is tried first, then each shorter one.
\<close>

fun star :: "(char \<Rightarrow> bool) \<Rightarrow> string \<Rightarrow> string \<Rightarrow> groups \<Rightarrow> (mstate \<Rightarrow> mstate option)
    \<Rightarrow> mstate option" where
  "star cls b [] g k = k (b, [], g)"
| "star cls b (c # a) g k =
     (if cls c then
        (case star cls (c # b) a g k of
           Some m \<Rightarrow> Some m
         | None \<Rightarrow> k (b, c # a, g))
      else k (b, c # a, g))"

text \<open>
  Matching with a continuation: \<open>rmatch r s k\<close> matches \<open>r\<close> from the state \<open>s\<close>
  and hands each state it can end in to \<open>k\<close>, in Python's order of preference, until
  \<open>k\<close> succeeds. A word boundary lies between a word character and a character that is
  not one, the ends of the text counting as the latter.
\<close>

fun rmatch :: "regex \<Rightarrow> mstate \<Rightarrow> (mstate \<Rightarrow> mstate option) \<Rightarrow> mstate option" where
  "rmatch Eps s k = k s"
| "rmatch (Chr cls) (b, a, g) k =
     (case a of [] \<Rightarrow> None | c # a' \<Rightarrow> if cls c then k (c # b, a', g) else None)"
| "rmatch (Star cls) (b, a, g) k = star cls b a g k"
| "rmatch (Plus cls) (b, a, g) k =
     (case a of [] \<Rightarrow> None | c # a' \<Rightarrow> if cls c then star cls (c # b) a' g k else None)"
| "rmatch (Seq r1 r2) s k = rmatch r1 s (\<lambda>s'. rmatch r2 s' k)"
| "rmatch (Alt r1 r2) s k =
     (case rmatch r1 s k of Some m \<Rightarrow> Some m | None \<Rightarrow> rmatch r2 s k)"
| "rmatch (Opt r) s k =
     (case rmatch r s k of Some m \<Rightarrow> Some m | None \<Rightarrow> k s)"
| "rmatch Bol (b, a, g) k = (if b = [] then k (b, a, g) else None)"
| "rmatch Word_Boundary (b, a, g) k =
     (if (b \<noteq> [] \<and> is_word (hd b)) \<noteq> (a \<noteq> [] \<and> is_word (hd a)) then k (b, a, g) else None)"
| "rmatch (Group n r) (b, a, g) k =
     rmatch r (b, a, g)
       (\<lambda>(b', a', g'). k (b', a', (n, length b, rev (take (length b' - length b) b')) # g'))"

text \<open>
  \<^verbatim>\<open>pattern.match(text, pos)\<close>: the state at the end of the match, if there is one.
\<close>

definition re_match :: "regex \<Rightarrow> string \<Rightarrow> string \<Rightarrow> mstate option" where
  "re_match r b a = rmatch r (b, a, []) Some"

text \<open>
  Both lexers set \<^verbatim>\<open>re.IGNORECASE\<close>: a literal letter matches in either case.
\<close>

definition lower :: "char \<Rightarrow> char" where
  "lower c =
     (if 65 \<le> (of_char c :: nat) \<and> (of_char c :: nat) \<le> 90
      then char_of ((of_char c :: nat) + 32) else c)"

definition ci :: "char \<Rightarrow> char \<Rightarrow> bool" where
  "ci c x = (lower x = lower c)"

fun seqs :: "regex list \<Rightarrow> regex" where
  "seqs [] = Eps"
| "seqs [r] = r"
| "seqs (r # rs) = Seq r (seqs rs)"

fun alts :: "regex list \<Rightarrow> regex" where
  "alts [] = Eps"
| "alts [r] = r"
| "alts (r # rs) = Alt r (alts rs)"

text \<open>A literal string, and the \<^verbatim>\<open>words(...)\<close> helper of Pygments with its suffix.\<close>

definition lit :: "string \<Rightarrow> regex" where
  "lit s = seqs (map (\<lambda>c. Chr (ci c)) s)"

definition words :: "string list \<Rightarrow> regex \<Rightarrow> regex" where
  "words ws suffix = Seq (alts (map lit ws)) suffix"

text \<open>\<^verbatim>\<open>.\<close> without \<^verbatim>\<open>re.DOTALL\<close>, and a character class given by its members.\<close>

definition dot :: "char \<Rightarrow> bool" where
  "dot c = (c \<noteq> CHR 0x0A)"

definition one_of :: "string \<Rightarrow> char \<Rightarrow> bool" where
  "one_of s c = (c \<in> set s)"

definition none_of :: "string \<Rightarrow> char \<Rightarrow> bool" where
  "none_of s c = (c \<notin> set s)"

section \<open>The engine of \<open>RegexLexer\<close>\<close>

text \<open>
  What a rule does to the stack of states: \<^verbatim>\<open>'#pop'\<close> and the name of a state to
  push; a tuple is a list of them and no new state is the empty list. A pop leaves the
  last state on the stack.
\<close>

datatype 'st stack_op = Pop | Push 'st

fun apply_ops :: "'st stack_op list \<Rightarrow> 'st list \<Rightarrow> 'st list" where
  "apply_ops [] statestack = statestack"
| "apply_ops (Pop # ops) statestack =
     apply_ops ops (if length statestack > 1 then butlast statestack else statestack)"
| "apply_ops (Push s # ops) statestack = apply_ops ops (statestack @ [s])"

text \<open>
  The action of a rule: a token type, for one token with the whole match, or
  \<^verbatim>\<open>bygroups(...)\<close> with one action per capturing group, each a token type or
  \<^verbatim>\<open>using(lexer)\<close>. The tokens of the other lexer are \<open>None\<close> when it does not
  return.
\<close>

datatype group_action = Group_Token ttype | Using "string \<Rightarrow> token list option"

datatype action = Token ttype | By_Groups "group_action list"

type_synonym 'st rule = "regex \<times> action \<times> 'st stack_op list"

text \<open>
  \<^verbatim>\<open>bygroups\<close>: a group that matched nothing yields no token, and the tokens of
  \<^verbatim>\<open>using\<close> are shifted by the offset of the group.
\<close>

fun run_bygroups :: "group_action list \<Rightarrow> nat \<Rightarrow> groups \<Rightarrow> token list option" where
  "run_bygroups [] i g = Some []"
| "run_bygroups (act # acts) i g =
     (case map_of g i of
        None \<Rightarrow> run_bygroups acts (Suc i) g
      | Some (start, data) \<Rightarrow>
          (case act of
             Group_Token ty \<Rightarrow>
               (if data \<noteq> [] then
                  map_option (\<lambda>rest. \<lparr>ttype = ty, value' = data, index = start\<rparr> # rest)
                    (run_bygroups acts (Suc i) g)
                else run_bygroups acts (Suc i) g)
           | Using lexer \<Rightarrow>
               (case lexer data of
                  None \<Rightarrow> None
                | Some toks \<Rightarrow>
                    map_option (\<lambda>rest. map (\<lambda>t. t\<lparr>index := index t + start\<rparr>) toks @ rest)
                      (run_bygroups acts (Suc i) g))))"

fun run_action :: "action \<Rightarrow> nat \<Rightarrow> string \<Rightarrow> groups \<Rightarrow> token list option" where
  "run_action (Token ty) start data g = Some [\<lparr>ttype = ty, value' = data, index = start\<rparr>]"
| "run_action (By_Groups acts) start data g = run_bygroups acts 1 g"

text \<open>The first rule of the current state that matches at the current position.\<close>

fun first_match ::
  "'st rule list \<Rightarrow> string \<Rightarrow> string \<Rightarrow> (mstate \<times> action \<times> 'st stack_op list) option" where
  "first_match [] b a = None"
| "first_match ((r, act, new_state) # rules) b a =
     (case re_match r b a of
        Some m \<Rightarrow> Some (m, act, new_state)
      | None \<Rightarrow> first_match rules b a)"

text \<open>
  One round of the \<^verbatim>\<open>while\<close> loop of \<^verbatim>\<open>RegexLexer.get_tokens_unprocessed\<close>,
  which is code of the Pygments library and is modelled as the library defines it. The first
  matching rule of the state on top of the stack yields its tokens, moves the position to
  the end of the match and changes the stack. When no rule matches: at the end of the text
  the loop ends; a newline is yielded as a token of its own (of the kind \<open>Whitespace\<close>;
  releases of the library before 2.12 give it the kind \<^verbatim>\<open>Text\<close>) and the stack is
  reset to the root state; any other character is yielded as an \<open>Error\<close> token; both
  move on by one character. \<open>Hang\<close> stands for an action that does not return.
\<close>

datatype 'st outcome = Break | Hang | Step "token list" string string "'st list"

definition lex_step ::
  "('st \<Rightarrow> 'st rule list) \<Rightarrow> 'st \<Rightarrow> string \<Rightarrow> string \<Rightarrow> 'st list \<Rightarrow> 'st outcome" where
  "lex_step tokendefs root b a statestack =
     (case first_match (tokendefs (last statestack)) b a of
        Some ((b', a', g), act, new_state) \<Rightarrow>
          (case run_action act (length b) (rev (take (length b' - length b) b')) g of
             None \<Rightarrow> Hang
           | Some toks \<Rightarrow> Step toks b' a' (apply_ops new_state statestack))
      | None \<Rightarrow>
          (case a of
             [] \<Rightarrow> Break
           | c # a' \<Rightarrow>
               if c = CHR 0x0A then
                 Step [\<lparr>ttype = Whitespace, value' = [c], index = length b\<rparr>] (c # b) a' [root]
               else
                 Step [\<lparr>ttype = Error, value' = [c], index = length b\<rparr>] (c # b) a' statestack))"

text \<open>
  The loop itself. Nothing in the engine makes it end: a rule that matches the empty string
  and leaves the stack as it is would be applied for ever. The result is \<open>None\<close> when the
  loop does not end.
\<close>

partial_function (option) lex_loop ::
  "('st \<Rightarrow> 'st rule list) \<Rightarrow> 'st \<Rightarrow> string \<Rightarrow> string \<Rightarrow> 'st list \<Rightarrow> token list option" where
  "lex_loop tokendefs root b a statestack =
     (case lex_step tokendefs root b a statestack of
        Break \<Rightarrow> Some []
      | Hang \<Rightarrow> None
      | Step toks b' a' statestack' \<Rightarrow>
          Option.bind (lex_loop tokendefs root b' a' statestack') (\<lambda>rest. Some (toks @ rest)))"

text \<open>\<^verbatim>\<open>get_tokens_unprocessed(text)\<close>, with the initial stack \<^verbatim>\<open>('root',)\<close>.\<close>

definition get_tokens_unprocessed ::
  "('st \<Rightarrow> 'st rule list) \<Rightarrow> 'st \<Rightarrow> string \<Rightarrow> token list option" where
  "get_tokens_unprocessed tokendefs root text = lex_loop tokendefs root [] text [root]"

section \<open>The lexers of \<open>peek/lexers.py\<close>\<close>

text \<open>
  Both lexers set \<^verbatim>\<open>flags = re.IGNORECASE\<close>, which replaces the default
  \<^verbatim>\<open>re.MULTILINE\<close> of \<^verbatim>\<open>RegexLexer\<close>: \<^verbatim>\<open>^\<close> matches at the start of the
  text only, and \<^verbatim>\<open>.\<close> matches every character but the newline. A rule is written
  as its pattern, its action and its new state, in the order of the source.

  The string states. \<^verbatim>\<open>innerstring_rules(ttype)\<close> has the patterns
  \<^verbatim>\<open>[^\\\'"%\n]+\<close> and \<^verbatim>\<open>[\'"\\]\<close>. \<^verbatim>\<open>dqs(ttype)\<close> puts before them
  \<^verbatim>\<open>"\<close> with \<^verbatim>\<open>'#pop'\<close> and the escapes \<^verbatim>\<open>\\\\|\\"|\\\n\<close>;
  \<^verbatim>\<open>sqs(ttype)\<close> puts before them \<^verbatim>\<open>'\<close> with \<^verbatim>\<open>'#pop'\<close> and the escapes
  \<^verbatim>\<open>\\\\|\\'|\\\n\<close>. The backslash is \<open>CHR 0x5C\<close>, the double quote
  \<open>CHR 0x22\<close>, the single quote \<open>CHR 0x27\<close> and the newline \<open>CHR 0x0A\<close>.
\<close>

definition innerstring_rules :: "ttype \<Rightarrow> 'st rule list" where
  "innerstring_rules ty =
     [(Plus (none_of [CHR 0x5C, CHR 0x27, CHR 0x22, CHR ''%'', CHR 0x0A]), Token ty, []),
      (Chr (one_of [CHR 0x27, CHR 0x22, CHR 0x5C]), Token ty, [])]"

definition dqs :: "ttype \<Rightarrow> 'st rule list" where
  "dqs ty =
     [(lit [CHR 0x22], Token ty, [Pop]),
      (alts [lit [CHR 0x5C, CHR 0x5C], lit [CHR 0x5C, CHR 0x22], lit [CHR 0x5C, CHR 0x0A]],
       Token StringEscape, [])]
     @ innerstring_rules ty"

definition sqs :: "ttype \<Rightarrow> 'st rule list" where
  "sqs ty =
     [(lit [CHR 0x27], Token ty, [Pop]),
      (alts [lit [CHR 0x5C, CHR 0x5C], lit [CHR 0x5C, CHR 0x27], lit [CHR 0x5C, CHR 0x0A]],
       Token StringEscape, [])]
     @ innerstring_rules ty"

text \<open>The states of \<^verbatim>\<open>PayloadLexer\<close>.\<close>

datatype payload_state =
    P_root | P_dict_key | P_dict_value | P_array_values | P_value
  | P_dqs_key | P_sqs_key | P_dqs | P_sqs | P_numbers

text \<open>\<^verbatim>\<open>//.*\<close> and \<^verbatim>\<open>\s+\<close>, which several states share.\<close>

definition comment_rule :: "'st rule" where
  "comment_rule = (seqs [lit ''//'', Star dot], Token CommentSingle, [])"

definition whitespace_rule :: "'st rule" where
  "whitespace_rule = (Plus is_space, Token Whitespace, [])"

text \<open>
  The state \<^verbatim>\<open>'numbers'\<close>, with the patterns
  \<^verbatim>\<open>(\d+\.\d*|\d*\.\d+)([eE][+-]?[0-9]+)?j?\<close>,
  \<^verbatim>\<open>\d+[eE][+-]?[0-9]+j?\<close>,
  \<^verbatim>\<open>0[0-7]+j?\<close>,
  \<^verbatim>\<open>0[bB][01]+\<close>,
  \<^verbatim>\<open>0[xX][a-fA-F0-9]+\<close>,
  \<^verbatim>\<open>\d+L\<close> and
  \<^verbatim>\<open>\d+j?\<close>.
\<close>

definition numbers_rules :: "'st rule list" where
  "numbers_rules =
     [(seqs [Group 1 (Alt (seqs [Plus is_digit, lit ''.'', Star is_digit])
                          (seqs [Star is_digit, lit ''.'', Plus is_digit])),
             Opt (Group 2 (seqs [Chr (one_of ''eE''), Opt (Chr (one_of ''+-'')),
                                 Plus (one_of ''0123456789'')])),
             Opt (lit ''j'')],
       Token NumberFloat, []),
      (seqs [Plus is_digit, Chr (one_of ''eE''), Opt (Chr (one_of ''+-'')),
             Plus (one_of ''0123456789''), Opt (lit ''j'')],
       Token NumberFloat, []),
      (seqs [lit ''0'', Plus (one_of ''01234567''), Opt (lit ''j'')], Token NumberOct, []),
      (seqs [lit ''0'', Chr (one_of ''bB''), Plus (one_of ''01'')], Token NumberBin, []),
      (seqs [lit ''0'', Chr (one_of ''xX''), Plus (one_of ''abcdefABCDEF0123456789'')],
       Token NumberHex, []),
      (seqs [Plus is_digit, lit ''L''], Token NumberIntegerLong, []),
      (seqs [Plus is_digit, Opt (lit ''j'')], Token NumberInteger, [])]"

text \<open>
  The state \<^verbatim>\<open>'value'\<close>, which two other states include. \<^verbatim>\<open>include\<close> puts
  the rules of the other state in its place, and
  \<^verbatim>\<open>words(('true', 'false', 'null'), suffix=r'\b')\<close> matches one of the words before
  a word boundary.
\<close>

definition value_rules :: "payload_state rule list" where
  "value_rules =
     [comment_rule,
      (lit ''{'', Token CurlyLeft, [Push P_dict_key]),
      (lit ''['', Token BracketLeft, [Push P_array_values]),
      (lit [CHR 0x22], Token StringDouble, [Push P_dqs]),
      (lit [CHR 0x27], Token StringSingle, [Push P_sqs]),
      (words [''true'', ''false'', ''null''] Word_Boundary, Token NameBuiltin, [])]
     @ numbers_rules
     @ [whitespace_rule]"

text \<open>
  The table \<^verbatim>\<open>PayloadLexer.tokens\<close>. As in the source, the state \<^verbatim>\<open>'sqs'\<close> is
  built with \<^verbatim>\<open>dqs(String.Single)\<close>.
\<close>

fun payload_tokens :: "payload_state \<Rightarrow> payload_state rule list" where
  "payload_tokens P_root =
     [comment_rule,
      (lit ''{'', Token CurlyLeft, [Push P_dict_key]),
      whitespace_rule]"
| "payload_tokens P_dict_key =
     [comment_rule,
      (lit ''}'', Token CurlyRight, [Pop]),
      (lit [CHR 0x22], Token StringSymbol, [Push P_dqs_key]),
      (lit [CHR 0x27], Token StringSymbol, [Push P_sqs_key]),
      (lit '':'', Token Colon, [Pop, Push P_dict_value]),
      whitespace_rule]"
| "payload_tokens P_dict_value =
     [(lit '','', Token Comma, [Pop, Push P_dict_key]),
      (lit ''}'', Token CurlyRight, [Pop])]
     @ value_rules"
| "payload_tokens P_array_values =
     [(lit '','', Token Comma, []),
      (lit '']'', Token BracketRight, [Pop])]
     @ value_rules"
| "payload_tokens P_value = value_rules"
| "payload_tokens P_dqs_key = dqs StringSymbol"
| "payload_tokens P_sqs_key = sqs StringSymbol"
| "payload_tokens P_dqs = dqs StringDouble"
| "payload_tokens P_sqs = dqs StringSingle"
| "payload_tokens P_numbers = numbers_rules"

definition payload_lexer :: "string \<Rightarrow> token list option" where
  "payload_lexer text = get_tokens_unprocessed payload_tokens P_root text"

text \<open>
  The states and the table of \<^verbatim>\<open>PeekLexer\<close>. The patterns are, in
  \<^verbatim>\<open>'root'\<close>: \<^verbatim>\<open>//.*\<close>, \<^verbatim>\<open>\s+\<close>, the words \<^verbatim>\<open>GET\<close>,
  \<^verbatim>\<open>POST\<close>, \<^verbatim>\<open>PUT\<close>, \<^verbatim>\<open>DELETE\<close> before a word boundary, and
  \<^verbatim>\<open>^(\s*)(%)\<close>; in \<^verbatim>\<open>'path'\<close>: \<^verbatim>\<open>\s+\<close> and \<^verbatim>\<open>\S+\<close>; in
  \<^verbatim>\<open>'payload'\<close>: \<^verbatim>\<open>(?s)(.*)\<close>, whose one group is lexed by
  \<^verbatim>\<open>using(PayloadLexer)\<close>; in \<^verbatim>\<open>'command'\<close>: \<^verbatim>\<open>\S+\<close> and
  \<^verbatim>\<open>\s+\<close>; in \<^verbatim>\<open>'args'\<close>: \<^verbatim>\<open>//.*\<close>, \<^verbatim>\<open>\S+\<close> and
  \<^verbatim>\<open>\s+\<close>.
\<close>

datatype peek_state = S_root | S_path | S_payload | S_command | S_args

fun peek_tokens :: "peek_state \<Rightarrow> peek_state rule list" where
  "peek_tokens S_root =
     [comment_rule,
      whitespace_rule,
      (words [''GET'', ''POST'', ''PUT'', ''DELETE''] Word_Boundary, Token Keyword,
       [Pop, Push S_path]),
      (seqs [Bol, Group 1 (Star is_space), Group 2 (lit ''%'')],
       By_Groups [Group_Token Whitespace, Group_Token Percent], [Pop, Push S_command])]"
| "peek_tokens S_path =
     [whitespace_rule,
      (Plus (\<lambda>c. \<not> is_space c), Token Literal, [Pop, Push S_payload])]"
| "peek_tokens S_payload =
     [(Group 1 (Star (\<lambda>c. True)), By_Groups [Using payload_lexer], [Pop])]"
| "peek_tokens S_command =
     [(Plus (\<lambda>c. \<not> is_space c), Token NameBuiltin, [Pop, Push S_args]),
      whitespace_rule]"
| "peek_tokens S_args =
     [comment_rule,
      (Plus (\<lambda>c. \<not> is_space c), Token Literal, []),
      whitespace_rule]"

text \<open>
  The main lexer's \<^verbatim>\<open>get_tokens_unprocessed\<close>, which the completer calls on the
  text before the cursor.
\<close>

definition peek_lexer :: "string \<Rightarrow> token list option" where
  "peek_lexer text = get_tokens_unprocessed peek_tokens S_root text"

text \<open>The equation of the loop is used to evaluate the lexers on concrete texts.\<close>

declare lex_loop.simps [code]

section \<open>Notions for the properties of the lexers\<close>

text \<open>A regular expression that cannot match the empty string, by its form.\<close>

fun nonempty :: "regex \<Rightarrow> bool" where
  "nonempty Eps = False"
| "nonempty (Chr cls) = True"
| "nonempty (Star cls) = False"
| "nonempty (Plus cls) = True"
| "nonempty (Seq r1 r2) = (nonempty r1 \<or> nonempty r2)"
| "nonempty (Alt r1 r2) = (nonempty r1 \<and> nonempty r2)"
| "nonempty (Opt r) = False"
| "nonempty Bol = False"
| "nonempty Word_Boundary = False"
| "nonempty (Group n r) = nonempty r"

text \<open>
  \<open>spans p toks s\<close>: the tokens tile the string \<open>s\<close>, which starts at offset
  \<open>p\<close>. Each token is not empty, starts where the one before it ended, and has as its
  value the text at its place; together they use up \<open>s\<close>.
\<close>

fun spans :: "nat \<Rightarrow> token list \<Rightarrow> string \<Rightarrow> bool" where
  "spans p [] s = (s = [])"
| "spans p (t # ts) s =
     (index t = p \<and> value' t \<noteq> [] \<and> take (length (value' t)) s = value' t
      \<and> spans (p + length (value' t)) ts (drop (length (value' t)) s))"

text \<open>
  The stacks of states that the main lexer goes through from its initial stack.
\<close>

definition peek_stack_ok :: "peek_state list \<Rightarrow> bool" where
  "peek_stack_ok statestack =
     (statestack \<in> set [[S_root], [S_root, S_path], [S_root, S_payload],
                        [S_root, S_command], [S_root, S_args]])"

section \<open>The search for the token at the cursor, in the words of the specification\<close>

text \<open>
  The specification gives a token the span from its start offset to its start offset plus
  the length of its text, both ends included, and has completion locate the token whose
  span contains the cursor offset. \<open>span_contains\<close> and \<open>locate_token\<close> follow
  these words; they are compared below with the test \<open>covers\<close> and the search
  \<open>find_token\<close> of the source.
\<close>

definition span_contains :: "nat \<Rightarrow> token \<Rightarrow> bool" where
  "span_contains cursor t = (index t \<le> cursor \<and> cursor \<le> index t + length (value' t))"

fun locate_token :: "token list \<Rightarrow> nat \<Rightarrow> nat \<Rightarrow> (nat \<times> token) option" where
  "locate_token [] cursor i = None"
| "locate_token (t # ts) cursor i =
     (if span_contains cursor t then Some (i, t) else locate_token ts cursor (Suc i))"

section \<open>Properties of \<open>can_match\<close>\<close>

lemma can_match_Cons:
  "can_match (t # ts) (p # ps) = (segment_ok t p \<and> can_match ts ps)"
  by (auto simp: segment_ok_def)

lemma can_match_all_pairs:
  "can_match ts ps = (\<forall>(t, p) \<in> set (zip ts ps). segment_ok t p)"
proof (induction ts arbitrary: ps)
  case Nil
  then show ?case by simp
next
  case (Cons t ts)
  show ?case
  proof (cases ps)
    case Nil
    then show ?thesis by simp
  next
    case (Cons p ps')
    have "can_match (t # ts) (p # ps') = (segment_ok t p \<and> can_match ts ps')"
      by (rule can_match_Cons)
    then show ?thesis
      using Cons.IH [of ps'] Cons by simp
  qed
qed

text \<open>
  Claim C1. \<open>can_match T P\<close> looks at the paired positions below
  \<open>min (length T) (length P)\<close> only, and it is true exactly when at every such position
  \<open>i\<close> either \<open>T ! i = P ! i\<close>, or \<open>T ! i\<close> does not start with an underscore and
  \<open>P ! i\<close> starts with an opening and ends with a closing brace. The three examples of
  the specification evaluate as stated.
\<close>

theorem can_match_iff:
  "(can_match T P \<longleftrightarrow>
      (\<forall>i < min (length T) (length P).
         T ! i = P ! i \<or>
         (\<not> startswith (T ! i) ''_'' \<and> startswith (P ! i) ''{'' \<and> endswith (P ! i) ''}'')))
   \<and> can_match [''users'', ''123''] [''users'', ''{id}'']
   \<and> \<not> can_match [''_search''] [''{index}'']
   \<and> \<not> can_match [''a''] [''b'']"
proof -
  have "can_match T P \<longleftrightarrow> (\<forall>i < min (length T) (length P). segment_ok (T ! i) (P ! i))"
    unfolding can_match_all_pairs
    by (auto simp: set_zip)
  moreover have "can_match [''users'', ''123''] [''users'', ''{id}'']"
    by (simp add: startswith_def endswith_def)
  moreover have "\<not> can_match [''_search''] [''{index}'']"
    by (simp add: startswith_def endswith_def)
  moreover have "\<not> can_match [''a''] [''b'']"
    by (simp add: startswith_def endswith_def)
  ultimately show ?thesis
    unfolding segment_ok_def by blast
qed

theorem can_match_iff_witness:
  "can_match [''prod'', ''_search''] [''{index}'', ''_search'', ''{id}'']
   \<and> \<not> can_match [''prod'', ''_count''] [''{index}'', ''_search'']"
proof -
  have "\<And>i. i < 2 \<Longrightarrow> i = 0 \<or> i = Suc 0" by arith
  then show ?thesis
    using can_match_iff [of "[''prod'', ''_search'']" "[''{index}'', ''_search'', ''{id}'']"]
      can_match_iff [of "[''prod'', ''_count'']" "[''{index}'', ''_search'']"]
    by (auto simp: startswith_def endswith_def)
qed

section \<open>Properties of path and query-parameter completion\<close>

lemma path_part_paths_eq:
  "path_part_paths method ts aps acc =
     acc @ [Completion (join ''/'' (drop (length ts) (path_segments (path ap)))) 0.
              ap \<leftarrow> aps,
              method \<in> set (methods ap) \<and> length ts < length (path_segments (path ap))
                \<and> can_match ts (path_segments (path ap))]"
  by (induction aps arbitrary: acc) (auto simp: Let_def)

lemma path_part_specs_eq:
  "path_part_specs method ts specs acc =
     acc @ [Completion (join ''/'' (drop (length ts) (path_segments (path ap)))) 0.
              (api_name, api_spec) \<leftarrow> specs, ap \<leftarrow> paths (url api_spec),
              method \<in> set (methods ap) \<and> length ts < length (path_segments (path ap))
                \<and> can_match ts (path_segments (path ap))]"
  by (induction specs arbitrary: acc) (auto simp: path_part_paths_eq)

lemma query_param_paths_eq:
  "query_param_paths method ts sp aps acc =
     acc \<union> (\<Union>ap \<in> set aps.
              if method \<in> set (methods ap) \<and> params sp \<noteq> None \<and> params sp \<noteq> Some []
                 \<and> length ts = length (path_segments (path ap))
                 \<and> can_match ts (path_segments (path ap))
              then set (the (params sp)) else {})"
  by (induction aps arbitrary: acc) (auto simp: Let_def)

lemma query_param_specs_eq:
  "query_param_specs method ts specs acc =
     acc \<union> (\<Union>(api_name, sp) \<in> set specs. \<Union>ap \<in> set (paths (url sp)).
              if method \<in> set (methods ap) \<and> params sp \<noteq> None \<and> params sp \<noteq> Some []
                 \<and> length ts = length (path_segments (path ap))
                 \<and> can_match ts (path_segments (path ap))
              then set (the (params sp)) else {})"
proof (induction specs arbitrary: acc)
  case Nil
  then show ?case by simp
next
  case (Cons a specs)
  obtain n sp where a: "a = (n, sp)" by (cases a)
  show ?case
    unfolding a by (simp only: query_param_specs.simps Cons.IH query_param_paths_eq
        list.set UN_insert split_conv Un_assoc)
qed

lemma upper_GET: "upper ''GET'' = ''GET''"
  by code_simp

text \<open>
  Claim C2. Path-part completion takes as typed segments \<open>T\<close> the values of the path
  tokens that are not slashes (a path token is never empty, so no empty segment is among
  them), without the last one when the cursor token is a path segment. For every path
  template of the specification whose methods contain the current method, in the order of
  the specification, it emits the remaining template segments joined by a slash, with
  insertion position 0, exactly when \<open>T\<close> is shorter than the template's segments \<open>P\<close>
  and \<open>can_match T P\<close> holds. With the single template \<^verbatim>\<open>/{index}/_search\<close> for the
  method GET, the typed input \<^verbatim>\<open>GET /prod/\<close> (a method token and a path token, the
  path lexed into slash, segment, slash) yields the candidate \<^verbatim>\<open>_search\<close>.
\<close>

theorem complete_path_part_candidates:
  fixes tokenize url_path_lexer :: "string \<Rightarrow> token list"
  defines "T \<equiv> \<lambda>path_tokens.
             if ttype (last path_tokens) = PathPart
             then butlast (map value' (filter (\<lambda>t. ttype t \<noteq> Slash) path_tokens))
             else map value' (filter (\<lambda>t. ttype t \<noteq> Slash) path_tokens)"
  assumes "path_tokens \<noteq> []"
    and "tokenize ''GET /prod/'' =
           [\<lparr>ttype = HttpMethod, value' = ''GET'', index = 0\<rparr>,
            \<lparr>ttype = Literal, value' = ''/prod/'', index = 4\<rparr>]"
    and "url_path_lexer ''/prod/'' =
           [\<lparr>ttype = Slash, value' = ''/'', index = 0\<rparr>,
            \<lparr>ttype = PathPart, value' = ''prod'', index = 1\<rparr>,
            \<lparr>ttype = Slash, value' = ''/'', index = 5\<rparr>]"
  shows "complete_path_part specs meth path_tokens =
           Inr (Fuzzy_Completer
             [Completion
                (join ''/'' (drop (length (T path_tokens)) (path_segments (path api_path)))) 0.
              (api_name, api_spec) \<leftarrow> specs, api_path \<leftarrow> paths (url api_spec),
              meth \<in> set (methods api_path)
                \<and> length (T path_tokens) < length (path_segments (path api_path))
                \<and> can_match (T path_tokens) (path_segments (path api_path))])
         \<and> get_completions tokenize url_path_lexer names
              [(name, \<lparr>url = \<lparr>paths = [\<lparr>path = ''/{index}/_search'', methods = [''GET'']\<rparr>]\<rparr>,
                       params = ps\<rparr>)]
              \<lparr>text' = ''GET /prod/'', cursor_position = 10\<rparr>
            = Inr (Fuzzy_Completer [Completion ''_search'' 0])"
proof
  show "complete_path_part specs meth path_tokens =
           Inr (Fuzzy_Completer
             [Completion
                (join ''/'' (drop (length (T path_tokens)) (path_segments (path api_path)))) 0.
              (api_name, api_spec) \<leftarrow> specs, api_path \<leftarrow> paths (url api_spec),
              meth \<in> set (methods api_path)
                \<and> length (T path_tokens) < length (path_segments (path api_path))
                \<and> can_match (T path_tokens) (path_segments (path api_path))])"
    using assms(2) unfolding complete_path_part_def T_def
    by (simp add: Let_def path_part_specs_eq)
next
  have segs: "path_segments ''/{index}/_search'' = [''{index}'', ''_search'']"
    by (simp add: path_segments_def)
  have part: "complete_path_part
          [(name, \<lparr>url = \<lparr>paths = [\<lparr>path = ''/{index}/_search'', methods = [''GET'']\<rparr>]\<rparr>,
                       params = ps\<rparr>)] ''GET''
           [\<lparr>ttype = Slash, value' = ''/'', index = 0\<rparr>,
            \<lparr>ttype = PathPart, value' = ''prod'', index = 1\<rparr>,
            \<lparr>ttype = Slash, value' = ''/'', index = 5\<rparr>]
        = Inr (Fuzzy_Completer [Completion ''_search'' 0])"
    by (simp add: complete_path_part_def segs startswith_def endswith_def)
  show "get_completions tokenize url_path_lexer names
              [(name, \<lparr>url = \<lparr>paths = [\<lparr>path = ''/{index}/_search'', methods = [''GET'']\<rparr>]\<rparr>,
                       params = ps\<rparr>)]
              \<lparr>text' = ''GET /prod/'', cursor_position = 10\<rparr>
            = Inr (Fuzzy_Completer [Completion ''_search'' 0])"
    using part
    by (simp add: get_completions_def complete_path_def assms(3,4) slice_to_def upper_GET
        covers_def)
qed

theorem complete_path_part_candidates_witness:
  "complete_path_part
     [(''search'', \<lparr>url = \<lparr>paths = [\<lparr>path = ''/{index}/_search'', methods = [''GET'']\<rparr>]\<rparr>,
                   params = None\<rparr>)] ''GET''
     [\<lparr>ttype = Slash, value' = ''/'', index = 0\<rparr>,
      \<lparr>ttype = PathPart, value' = ''pr'', index = 1\<rparr>]
     = Inr (Fuzzy_Completer [Completion ''{index}/_search'' 0])
   \<and> get_completions
       (\<lambda>s. [\<lparr>ttype = HttpMethod, value' = ''GET'', index = 0\<rparr>,
             \<lparr>ttype = Literal, value' = ''/prod/'', index = 4\<rparr>])
       (\<lambda>s. [\<lparr>ttype = Slash, value' = ''/'', index = 0\<rparr>,
             \<lparr>ttype = PathPart, value' = ''prod'', index = 1\<rparr>,
             \<lparr>ttype = Slash, value' = ''/'', index = 5\<rparr>])
       []
       [(''search'', \<lparr>url = \<lparr>paths = [\<lparr>path = ''/{index}/_search'', methods = [''GET'']\<rparr>]\<rparr>,
                     params = None\<rparr>)]
       \<lparr>text' = ''GET /prod/'', cursor_position = 10\<rparr>
     = Inr (Fuzzy_Completer [Completion ''_search'' 0])"
proof -
  have segs: "path_segments ''/{index}/_search'' = [''{index}'', ''_search'']"
    by (simp add: path_segments_def)
  show ?thesis
    using complete_path_part_candidates [where
        path_tokens = "[\<lparr>ttype = Slash, value' = ''/'', index = 0\<rparr>,
                        \<lparr>ttype = PathPart, value' = ''pr'', index = 1\<rparr>]"
        and tokenize = "\<lambda>s. [\<lparr>ttype = HttpMethod, value' = ''GET'', index = 0\<rparr>,
             \<lparr>ttype = Literal, value' = ''/prod/'', index = 4\<rparr>]"
        and url_path_lexer = "\<lambda>s. [\<lparr>ttype = Slash, value' = ''/'', index = 0\<rparr>,
             \<lparr>ttype = PathPart, value' = ''prod'', index = 1\<rparr>,
             \<lparr>ttype = Slash, value' = ''/'', index = 5\<rparr>]"
        and specs = "[(''search'', \<lparr>url = \<lparr>paths = [\<lparr>path = ''/{index}/_search'', methods = [''GET'']\<rparr>]\<rparr>,
                   params = None\<rparr>)]"
        and meth = "''GET''" and names = "[]" and name = "''search''" and ps = None]
    by (simp add: segs)
qed


text \<open>
  Claim C3. Query-parameter-name completion takes as \<open>T\<close> the values of the
  \<open>PathPart\<close> tokens only, and offers the union of the declared parameter names of
  exactly those templates whose methods contain the current method, whose entry declares a
  non-empty parameter dictionary, and whose segments \<open>P\<close> satisfy
  \<open>length T = length P\<close> and \<open>can_match T P\<close>. The candidates form a set, so each
  name is offered once. With the parameters \<open>q\<close> and \<open>size\<close> declared for the template
  \<^verbatim>\<open>/{index}/_search\<close>, the typed input \<^verbatim>\<open>GET /prod/_search?\<close> yields both.
\<close>

theorem complete_query_param_name_candidates:
  fixes tokenize url_path_lexer :: "string \<Rightarrow> token list"
  defines "T \<equiv> \<lambda>path_tokens. map value' (filter (\<lambda>t. ttype t = PathPart) path_tokens)"
  assumes "path_tokens \<noteq> []"
    and "tokenize ''GET /prod/_search?'' =
           [\<lparr>ttype = HttpMethod, value' = ''GET'', index = 0\<rparr>,
            \<lparr>ttype = Literal, value' = ''/prod/_search?'', index = 4\<rparr>]"
    and "url_path_lexer ''/prod/_search?'' =
           [\<lparr>ttype = Slash, value' = ''/'', index = 0\<rparr>,
            \<lparr>ttype = PathPart, value' = ''prod'', index = 1\<rparr>,
            \<lparr>ttype = Slash, value' = ''/'', index = 5\<rparr>,
            \<lparr>ttype = PathPart, value' = ''_search'', index = 6\<rparr>,
            \<lparr>ttype = QuestionMark, value' = ''?'', index = 13\<rparr>]"
  shows "complete_query_param_name specs meth path_tokens =
           Inr (Fuzzy_Completer_Set ((\<lambda>c. Completion c 0) `
             (\<Union>(api_name, api_spec) \<in> set specs. \<Union>api_path \<in> set (paths (url api_spec)).
                if meth \<in> set (methods api_path)
                   \<and> params api_spec \<noteq> None \<and> params api_spec \<noteq> Some []
                   \<and> length (T path_tokens) = length (path_segments (path api_path))
                   \<and> can_match (T path_tokens) (path_segments (path api_path))
                then set (the (params api_spec)) else {})))
         \<and> get_completions tokenize url_path_lexer names
              [(name, \<lparr>url = \<lparr>paths = [\<lparr>path = ''/{index}/_search'', methods = [''GET'']\<rparr>]\<rparr>,
                       params = Some [''q'', ''size'']\<rparr>)]
              \<lparr>text' = ''GET /prod/_search?'', cursor_position = 18\<rparr>
            = Inr (Fuzzy_Completer_Set {Completion ''q'' 0, Completion ''size'' 0})"
proof
  show "complete_query_param_name specs meth path_tokens =
           Inr (Fuzzy_Completer_Set ((\<lambda>c. Completion c 0) `
             (\<Union>(api_name, api_spec) \<in> set specs. \<Union>api_path \<in> set (paths (url api_spec)).
                if meth \<in> set (methods api_path)
                   \<and> params api_spec \<noteq> None \<and> params api_spec \<noteq> Some []
                   \<and> length (T path_tokens) = length (path_segments (path api_path))
                   \<and> can_match (T path_tokens) (path_segments (path api_path))
                then set (the (params api_spec)) else {})))"
    using assms(2) unfolding complete_query_param_name_def T_def
    by (simp add: Let_def query_param_specs_eq)
next
  have segs: "path_segments ''/{index}/_search'' = [''{index}'', ''_search'']"
    by (simp add: path_segments_def)
  have part: "complete_query_param_name
          [(name, \<lparr>url = \<lparr>paths = [\<lparr>path = ''/{index}/_search'', methods = [''GET'']\<rparr>]\<rparr>,
                       params = Some [''q'', ''size'']\<rparr>)] ''GET''
           [\<lparr>ttype = Slash, value' = ''/'', index = 0\<rparr>,
            \<lparr>ttype = PathPart, value' = ''prod'', index = 1\<rparr>,
            \<lparr>ttype = Slash, value' = ''/'', index = 5\<rparr>,
            \<lparr>ttype = PathPart, value' = ''_search'', index = 6\<rparr>,
            \<lparr>ttype = QuestionMark, value' = ''?'', index = 13\<rparr>]
        = Inr (Fuzzy_Completer_Set {Completion ''q'' 0, Completion ''size'' 0})"
    by (simp add: complete_query_param_name_def segs startswith_def endswith_def)
  show "get_completions tokenize url_path_lexer names
              [(name, \<lparr>url = \<lparr>paths = [\<lparr>path = ''/{index}/_search'', methods = [''GET'']\<rparr>]\<rparr>,
                       params = Some [''q'', ''size'']\<rparr>)]
              \<lparr>text' = ''GET /prod/_search?'', cursor_position = 18\<rparr>
            = Inr (Fuzzy_Completer_Set {Completion ''q'' 0, Completion ''size'' 0})"
    using part
    by (simp add: get_completions_def complete_path_def assms(3,4) slice_to_def upper_GET
        covers_def)
qed

theorem complete_query_param_name_candidates_witness:
  "complete_query_param_name
     [(''search'', \<lparr>url = \<lparr>paths = [\<lparr>path = ''/{index}/_search'', methods = [''GET'']\<rparr>,
                                    \<lparr>path = ''/_search'', methods = [''GET'', ''POST'']\<rparr>]\<rparr>,
                   params = Some [''q'', ''size'']\<rparr>),
      (''count'', \<lparr>url = \<lparr>paths = [\<lparr>path = ''/{index}/_count'', methods = [''GET'']\<rparr>]\<rparr>,
                   params = Some [''q'', ''df'']\<rparr>),
      (''info'', \<lparr>url = \<lparr>paths = [\<lparr>path = ''/{index}/{id}'', methods = [''GET'']\<rparr>]\<rparr>,
                   params = Some []\<rparr>)] ''GET''
     [\<lparr>ttype = Slash, value' = ''/'', index = 0\<rparr>,
      \<lparr>ttype = PathPart, value' = ''prod'', index = 1\<rparr>,
      \<lparr>ttype = Slash, value' = ''/'', index = 5\<rparr>,
      \<lparr>ttype = PathPart, value' = ''_count'', index = 6\<rparr>,
      \<lparr>ttype = QuestionMark, value' = ''?'', index = 12\<rparr>]
     = Inr (Fuzzy_Completer_Set {Completion ''q'' 0, Completion ''df'' 0})"
proof -
  have segs: "path_segments ''/{index}/_search'' = [''{index}'', ''_search'']"
    "path_segments ''/{index}/_count'' = [''{index}'', ''_count'']"
    "path_segments ''/_search'' = [''_search'']"
    "path_segments ''/{index}/{id}'' = [''{index}'', ''{id}'']"
    by (simp_all add: path_segments_def)
  show ?thesis
    using complete_query_param_name_candidates [where
        path_tokens = "[\<lparr>ttype = Slash, value' = ''/'', index = 0\<rparr>,
      \<lparr>ttype = PathPart, value' = ''prod'', index = 1\<rparr>,
      \<lparr>ttype = Slash, value' = ''/'', index = 5\<rparr>,
      \<lparr>ttype = PathPart, value' = ''_count'', index = 6\<rparr>,
      \<lparr>ttype = QuestionMark, value' = ''?'', index = 12\<rparr>]"
        and tokenize = "\<lambda>s. [\<lparr>ttype = HttpMethod, value' = ''GET'', index = 0\<rparr>,
            \<lparr>ttype = Literal, value' = ''/prod/_search?'', index = 4\<rparr>]"
        and url_path_lexer = "\<lambda>s. [\<lparr>ttype = Slash, value' = ''/'', index = 0\<rparr>,
            \<lparr>ttype = PathPart, value' = ''prod'', index = 1\<rparr>,
            \<lparr>ttype = Slash, value' = ''/'', index = 5\<rparr>,
            \<lparr>ttype = PathPart, value' = ''_search'', index = 6\<rparr>,
            \<lparr>ttype = QuestionMark, value' = ''?'', index = 13\<rparr>]"
        and specs = "[(''search'', \<lparr>url = \<lparr>paths = [\<lparr>path = ''/{index}/_search'', methods = [''GET'']\<rparr>,
                                    \<lparr>path = ''/_search'', methods = [''GET'', ''POST'']\<rparr>]\<rparr>,
                   params = Some [''q'', ''size'']\<rparr>),
      (''count'', \<lparr>url = \<lparr>paths = [\<lparr>path = ''/{index}/_count'', methods = [''GET'']\<rparr>]\<rparr>,
                   params = Some [''q'', ''df'']\<rparr>),
      (''info'', \<lparr>url = \<lparr>paths = [\<lparr>path = ''/{index}/{id}'', methods = [''GET'']\<rparr>]\<rparr>,
                   params = Some []\<rparr>)]"
        and meth = "''GET''"]
    by (simp add: segs startswith_def endswith_def insert_commute)
qed


section \<open>Properties of \<open>get_completions\<close>\<close>

lemma find_token_Some_iff:
  "find_token ts c k = Some (i, t) \<longleftrightarrow>
     k \<le> i \<and> i - k < length ts \<and> t = ts ! (i - k) \<and> covers c t
     \<and> (\<forall>j < i - k. \<not> covers c (ts ! j))"
proof (induction ts arbitrary: k)
  case Nil
  then show ?case by simp
next
  case (Cons a ts)
  show ?case
  proof (cases "covers c a")
    case True
    then show ?thesis
      by (cases "i - k") auto
  next
    case False
    have eq: "find_token (a # ts) c k = Some (i, t) \<longleftrightarrow>
        Suc k \<le> i \<and> i - Suc k < length ts \<and> t = ts ! (i - Suc k) \<and> covers c t
        \<and> (\<forall>j < i - Suc k. \<not> covers c (ts ! j))"
      using False Cons.IH [of "Suc k"] by simp
    show ?thesis
    proof
      assume "find_token (a # ts) c k = Some (i, t)"
      with eq have h: "Suc k \<le> i" "i - Suc k < length ts" "t = ts ! (i - Suc k)"
        "covers c t" "\<forall>j < i - Suc k. \<not> covers c (ts ! j)"
        by auto
      from h(1) obtain m where m: "i - k = Suc m" "i - Suc k = m"
        by (cases "i - k") auto
      have "\<not> covers c ((a # ts) ! j)" if "j < i - k" for j
        using that False h(5) m by (cases j) auto
      then show "k \<le> i \<and> i - k < length (a # ts) \<and> t = (a # ts) ! (i - k) \<and> covers c t
          \<and> (\<forall>j < i - k. \<not> covers c ((a # ts) ! j))"
        using h m by auto
    next
      assume r: "k \<le> i \<and> i - k < length (a # ts) \<and> t = (a # ts) ! (i - k) \<and> covers c t
          \<and> (\<forall>j < i - k. \<not> covers c ((a # ts) ! j))"
      then have "i - k \<noteq> 0" using False by (auto intro!: notI)
      then obtain m where m: "i - k = Suc m" by (cases "i - k") auto
      then have m': "i - Suc k = m" "Suc k \<le> i" by arith+
      have "\<not> covers c (ts ! j)" if "j < m" for j
      proof -
        from that have "Suc j < i - k" using m by simp
        with r have "\<not> covers c ((a # ts) ! Suc j)" by blast
        then show ?thesis by simp
      qed
      with r m m' show "find_token (a # ts) c k = Some (i, t)"
        unfolding eq by auto
    qed
  qed
qed

lemma find_token_None_iff:
  "find_token ts c k = None \<longleftrightarrow> (\<forall>t \<in> set ts. \<not> covers c t)"
  by (induction ts arbitrary: k) auto

lemma get_completions_else_branch:
  assumes "tokenize (take (cursor_position doc) (text' doc)) = tokens"
    and "tokens \<noteq> []"
    and "\<forall>t \<in> set tokens. \<not> covers (cursor_position doc) t"
  shows "get_completions tokenize url_path_lexer names specs doc =
           (if CHR 0x0A \<in> set (drop (index (last tokens) + length (value' (last tokens)))
                                   (take (cursor_position doc) (text' doc)))
            then Inr Empty_List else Inr (complete_options names tokens))"
proof -
  have "find_token tokens (cursor_position doc) 0 = None"
    using assms(3) by (simp add: find_token_None_iff)
  then show ?thesis
    using assms(1,2) by (simp add: get_completions_def)
qed

lemma get_completions_found_branch:
  assumes "tokenize (take (cursor_position doc) (text' doc)) = tokens"
    and "i < length tokens"
    and "covers (cursor_position doc) (tokens ! i)"
    and "\<forall>j < i. \<not> covers (cursor_position doc) (tokens ! j)"
  shows "get_completions tokenize url_path_lexer names specs doc =
           (if ttype (tokens ! i) \<in> {HttpMethod, FuncName} then
              Inr (Chain (Word_Completer [''GET'', ''POST'', ''PUT'', ''DELETE''] True)
                         (Word_Completer (map fst names) False))
            else if i > 0 \<and> ttype (tokens ! (i - 1)) = HttpMethod then
              complete_path url_path_lexer specs tokens doc
            else if ttype (tokens ! i) \<in> {Error, KeyName, Name} then
              Inr (complete_options names (butlast tokens))
            else Inr Empty_List)"
proof -
  have "find_token tokens (cursor_position doc) 0 = Some (i, tokens ! i)"
    using assms(2-4) by (simp add: find_token_Some_iff)
  moreover have "tokens \<noteq> []" using assms(2) by auto
  ultimately show ?thesis
    using assms(1) by (simp add: get_completions_def)
qed

text \<open>
  Claim C10. Whenever the normalised token stream of the text before the cursor is empty,
  \<open>get_completions\<close> returns the empty list, whatever the specification repository
  holds, and raises nothing. With the cursor at offset 0 the text before it is empty, and
  the main lexer yields no token for the empty text.
\<close>

theorem get_completions_no_tokens:
  "(tokenize (take (cursor_position doc) (text' doc)) = [] \<longrightarrow>
      get_completions tokenize url_path_lexer names specs doc = Inr Empty_List)
   \<and> peek_lexer [] = Some []"
proof -
  have "peek_lexer [] = Some []"
    by code_simp
  then show ?thesis
    by (simp add: get_completions_def)
qed

theorem get_completions_no_tokens_witness:
  "get_completions
     (\<lambda>s. if s = [] then [] else [\<lparr>ttype = HttpMethod, value' = s, index = 0\<rparr>])
     (\<lambda>s. []) []
     [(''search'', \<lparr>url = \<lparr>paths = [\<lparr>path = ''/_search'', methods = [''GET'']\<rparr>]\<rparr>,
                   params = None\<rparr>)]
     \<lparr>text' = ''GET'', cursor_position = 0\<rparr> = Inr Empty_List"
  using get_completions_no_tokens [of
      "\<lambda>s. if s = [] then [] else [\<lparr>ttype = HttpMethod, value' = s, index = 0\<rparr>]"
      "\<lparr>text' = ''GET'', cursor_position = 0\<rparr>"]
  by simp

text \<open>
  \<open>get_completions\<close> raises no exception: the list accesses that could fail are
  guarded by the tests before them.
\<close>

lemma complete_path_no_error:
  "2 \<le> length tokens \<Longrightarrow> \<exists>c. complete_path url_path_lexer specs tokens doc = Inr c"
  by (simp add: complete_path_def Let_def complete_path_part_def complete_query_param_name_def)

lemma get_completions_no_error:
  "\<exists>c. get_completions tokenize url_path_lexer names specs doc = Inr c"
proof -
  let ?tokens = "tokenize (take (cursor_position doc) (text' doc))"
  show ?thesis
  proof (cases "find_token ?tokens (cursor_position doc) 0")
    case None
    then show ?thesis
      by (simp add: get_completions_def Let_def)
  next
    case (Some x)
    obtain i t where x: "x = (i, t)" by (cases x)
    from Some x have i: "i < length ?tokens"
      by (simp add: find_token_Some_iff)
    have "0 < i \<Longrightarrow> \<exists>c. complete_path url_path_lexer specs ?tokens doc = Inr c"
      using i by (intro complete_path_no_error) simp
    then show ?thesis
      using Some x by (auto simp: get_completions_def Let_def)
  qed
qed

text \<open>
  Option completion ends without a \<^verbatim>\<open>return\<close> whenever its tokens hold no
  \<open>HttpMethod\<close>, \<open>FuncName\<close> or \<open>BlankLine\<close> token and do not end in an
  \<open>Assign\<close> token.
\<close>

lemma scan_options_none:
  "\<forall>t \<in> set ts. ttype t \<notin> {HttpMethod, FuncName, BlankLine} \<Longrightarrow>
   scan_options names ts = None_Value"
  by (induction ts) auto

lemma complete_options_none:
  assumes "\<forall>t \<in> set tokens. ttype t \<notin> {HttpMethod, FuncName, BlankLine}"
    and "tokens = [] \<or> ttype (last tokens) \<noteq> Assign"
  shows "complete_options names tokens = None_Value"
  using assms by (auto simp: complete_options_def scan_options_none)

text \<open>
  Claim C6 asks that \<open>get_completions\<close> always returns an iterable. The main lexer
  has no rule for a bare word and yields it as \<open>Error\<close> tokens. For the lone
  unrecognised word \<^verbatim>\<open>foo\<close> with the cursor at its end, the located token is an
  \<open>Error\<close> token, option completion runs over the tokens before it, finds none of the
  kinds it looks for, and ends without a \<^verbatim>\<open>return\<close>: the value is
  \<^verbatim>\<open>None\<close>. This holds whether the word arrives as one merged \<open>Error\<close> token or
  as one \<open>Error\<close> token per character.
\<close>

theorem get_completions_returns_none:
  "peek_lexer ''foo'' =
     Some [\<lparr>ttype = Error, value' = ''f'', index = 0\<rparr>,
           \<lparr>ttype = Error, value' = ''o'', index = 1\<rparr>,
           \<lparr>ttype = Error, value' = ''o'', index = 2\<rparr>]
   \<and> get_completions (\<lambda>s. [\<lparr>ttype = Error, value' = ''foo'', index = 0\<rparr>]) url_path_lexer
     names specs \<lparr>text' = ''foo'', cursor_position = 3\<rparr> = Inr None_Value
   \<and> get_completions
       (\<lambda>s. [\<lparr>ttype = Error, value' = ''f'', index = 0\<rparr>,
             \<lparr>ttype = Error, value' = ''o'', index = 1\<rparr>,
             \<lparr>ttype = Error, value' = ''o'', index = 2\<rparr>]) url_path_lexer
       names specs \<lparr>text' = ''foo'', cursor_position = 3\<rparr> = Inr None_Value"
proof -
  have "peek_lexer ''foo'' =
     Some [\<lparr>ttype = Error, value' = ''f'', index = 0\<rparr>,
           \<lparr>ttype = Error, value' = ''o'', index = 1\<rparr>,
           \<lparr>ttype = Error, value' = ''o'', index = 2\<rparr>]"
    by code_simp
  then show ?thesis
    by (simp add: get_completions_def complete_options_def covers_def)
qed

section \<open>Properties of option completion\<close>

lemma scan_options_skip:
  "\<forall>u \<in> set post. ttype u \<notin> {HttpMethod, FuncName, BlankLine} \<Longrightarrow>
   scan_options names (post @ rest) = scan_options names rest"
  by (induction post) auto

lemma complete_options_scan_last:
  assumes "\<forall>u \<in> set post. ttype u \<notin> {HttpMethod, FuncName, BlankLine}"
    and "ttype t \<in> {HttpMethod, FuncName, BlankLine}"
    and "post \<noteq> [] \<longrightarrow> ttype (last post) \<noteq> Assign"
  shows "complete_options names (pre @ t # post) = scan_options names [t]"
proof -
  have "ttype (last (pre @ t # post)) \<noteq> Assign"
    using assms(2,3) by (cases "post = []") auto
  then have "complete_options names (pre @ t # post)
      = scan_options names (rev post @ t # rev pre)"
    by (simp add: complete_options_def)
  also have "\<dots> = scan_options names (t # rev pre)"
    using assms(1) by (intro scan_options_skip) simp
  also have "\<dots> = scan_options names [t]"
    using assms(2) by auto
  finally show ?thesis .
qed


text \<open>
  Claim C8, as amended. When the located token is an \<open>Error\<close>, \<open>KeyName\<close> or
  \<open>Name\<close> token (and no method token stands right before it), \<open>get_completions\<close>
  drops the trailing token and runs option completion on the rest. Option completion scans
  backward for the nearest \<open>HttpMethod\<close>, \<open>FuncName\<close> or \<open>BlankLine\<close> token
  \<open>t\<close> (no token after it is of these kinds): an \<open>HttpMethod\<close> yields exactly the
  keys \<^verbatim>\<open>conn=\<close> and \<^verbatim>\<open>runas=\<close>; a \<open>FuncName\<close> yields each declared option
  name of that function followed by \<^verbatim>\<open>=\<close>, or nothing when the function is unknown or
  declares none; a \<open>BlankLine\<close> yields nothing; and a token list that ends in an
  \<open>Assign\<close> token yields nothing. A cursor immediately after an \<open>Assign\<close> token
  (no method token standing right before it) yields no candidates either. In particular,
  the main lexer takes the word after the method as the path, so when the stream of
  \<^verbatim>\<open>POST myfunc \<close> is the method token followed by the path token \<open>myfunc\<close>,
  completing at its end yields \<^verbatim>\<open>conn=\<close> and \<^verbatim>\<open>runas=\<close>, whatever functions are
  known: the nearest of the three kinds behind the cursor is the method.
\<close>

theorem complete_options_nearest_head:
  fixes tokenize url_path_lexer :: "string \<Rightarrow> token list"
  defines "tokens \<equiv> \<lambda>doc. tokenize (take (cursor_position doc) (text' doc))"
  assumes "\<forall>u \<in> set post. ttype u \<notin> {HttpMethod, FuncName, BlankLine}"
    and "post \<noteq> [] \<longrightarrow> ttype (last post) \<noteq> Assign"
  shows "(i < length (tokens doc) \<and> covers (cursor_position doc) (tokens doc ! i)
            \<and> (\<forall>j < i. \<not> covers (cursor_position doc) (tokens doc ! j))
            \<and> ttype (tokens doc ! i) \<in> {Error, KeyName, Name}
            \<and> \<not> (i > 0 \<and> ttype (tokens doc ! (i - 1)) = HttpMethod) \<longrightarrow>
          get_completions tokenize url_path_lexer names specs doc =
            Inr (complete_options names (butlast (tokens doc))))
       \<and> (ttype t = HttpMethod \<longrightarrow>
            complete_options names (pre @ t # post) =
              Word_Completer [''conn='', ''runas=''] False)
       \<and> (ttype t = FuncName \<longrightarrow>
            complete_options names (pre @ t # post) =
              (case map_of names (value' t) of
                 None \<Rightarrow> Empty_List
               | Some f \<Rightarrow>
                   (case option_names f of
                      None \<Rightarrow> Empty_List
                    | Some ns \<Rightarrow>
                        if ns = [] then Empty_List
                        else Word_Completer (map (\<lambda>n. n @ ''='') ns) False)))
       \<and> (ttype t = BlankLine \<longrightarrow> complete_options names (pre @ t # post) = Empty_List)
       \<and> (ttype a = Assign \<longrightarrow> complete_options names (pre @ [a]) = Empty_List)
       \<and> (i < length (tokens doc) \<and> covers (cursor_position doc) (tokens doc ! i)
            \<and> (\<forall>j < i. \<not> covers (cursor_position doc) (tokens doc ! j))
            \<and> ttype (tokens doc ! i) = Assign
            \<and> \<not> (i > 0 \<and> ttype (tokens doc ! (i - 1)) = HttpMethod) \<longrightarrow>
          get_completions tokenize url_path_lexer names specs doc = Inr Empty_List)
       \<and> peek_lexer ''POST myfunc '' =
            Some [\<lparr>ttype = Keyword, value' = ''POST'', index = 0\<rparr>,
                  \<lparr>ttype = Whitespace, value' = '' '', index = 4\<rparr>,
                  \<lparr>ttype = Literal, value' = ''myfunc'', index = 5\<rparr>,
                  \<lparr>ttype = Whitespace, value' = '' '', index = 11\<rparr>]
       \<and> (tokenize ''POST myfunc '' =
             [\<lparr>ttype = HttpMethod, value' = ''POST'', index = 0\<rparr>,
              \<lparr>ttype = Literal, value' = ''myfunc'', index = 5\<rparr>] \<longrightarrow>
           get_completions tokenize url_path_lexer names specs
             \<lparr>text' = ''POST myfunc '', cursor_position = 12\<rparr>
           = Inr (Word_Completer [''conn='', ''runas=''] False))"
proof -
  have drop_last: "i < length (tokens doc) \<and> covers (cursor_position doc) (tokens doc ! i)
            \<and> (\<forall>j < i. \<not> covers (cursor_position doc) (tokens doc ! j))
            \<and> ttype (tokens doc ! i) \<in> {Error, KeyName, Name}
            \<and> \<not> (i > 0 \<and> ttype (tokens doc ! (i - 1)) = HttpMethod) \<longrightarrow>
          get_completions tokenize url_path_lexer names specs doc =
            Inr (complete_options names (butlast (tokens doc)))"
    unfolding tokens_def
    using get_completions_found_branch [OF refl, of i tokenize doc url_path_lexer names specs]
    by auto
  have nearest: "ttype t \<in> {HttpMethod, FuncName, BlankLine} \<Longrightarrow>
      complete_options names (pre @ t # post) = scan_options names [t]"
    using assms(2,3) by (intro complete_options_scan_last) auto
  have m: "ttype t = HttpMethod \<longrightarrow>
            complete_options names (pre @ t # post) =
              Word_Completer [''conn='', ''runas=''] False"
    using nearest by simp
  have f: "ttype t = FuncName \<longrightarrow>
            complete_options names (pre @ t # post) =
              (case map_of names (value' t) of
                 None \<Rightarrow> Empty_List
               | Some f \<Rightarrow>
                   (case option_names f of
                      None \<Rightarrow> Empty_List
                    | Some ns \<Rightarrow>
                        if ns = [] then Empty_List
                        else Word_Completer (map (\<lambda>n. n @ ''='') ns) False))"
    using nearest by (simp split: option.splits)
  have b: "ttype t = BlankLine \<longrightarrow> complete_options names (pre @ t # post) = Empty_List"
    using nearest by simp
  have a: "ttype a = Assign \<longrightarrow> complete_options names (pre @ [a]) = Empty_List"
    by (simp add: complete_options_def)
  have v: "i < length (tokens doc) \<and> covers (cursor_position doc) (tokens doc ! i)
            \<and> (\<forall>j < i. \<not> covers (cursor_position doc) (tokens doc ! j))
            \<and> ttype (tokens doc ! i) = Assign
            \<and> \<not> (i > 0 \<and> ttype (tokens doc ! (i - 1)) = HttpMethod) \<longrightarrow>
          get_completions tokenize url_path_lexer names specs doc = Inr Empty_List"
    unfolding tokens_def
    using get_completions_found_branch [OF refl, of i tokenize doc url_path_lexer names specs]
    by auto
  have l: "peek_lexer ''POST myfunc '' =
            Some [\<lparr>ttype = Keyword, value' = ''POST'', index = 0\<rparr>,
                  \<lparr>ttype = Whitespace, value' = '' '', index = 4\<rparr>,
                  \<lparr>ttype = Literal, value' = ''myfunc'', index = 5\<rparr>,
                  \<lparr>ttype = Whitespace, value' = '' '', index = 11\<rparr>]"
    by code_simp
  have e: "tokenize ''POST myfunc '' =
             [\<lparr>ttype = HttpMethod, value' = ''POST'', index = 0\<rparr>,
              \<lparr>ttype = Literal, value' = ''myfunc'', index = 5\<rparr>] \<longrightarrow>
           get_completions tokenize url_path_lexer names specs
             \<lparr>text' = ''POST myfunc '', cursor_position = 12\<rparr>
           = Inr (Word_Completer [''conn='', ''runas=''] False)"
    by (simp add: get_completions_def complete_options_def covers_def)
  from drop_last m f b a v l e show ?thesis by blast
qed

theorem complete_options_nearest_head_witness:
  "complete_options []
     [\<lparr>ttype = HttpMethod, value' = ''GET'', index = 0\<rparr>,
      \<lparr>ttype = Literal, value' = ''/idx'', index = 4\<rparr>]
     = Word_Completer [''conn='', ''runas=''] False
   \<and> complete_options [(''run'', \<lparr>option_names = Some [''a'', ''b'']\<rparr>)]
       [\<lparr>ttype = FuncName, value' = ''run'', index = 0\<rparr>,
        \<lparr>ttype = Literal, value' = ''x'', index = 4\<rparr>]
     = Word_Completer [''a='', ''b=''] False
   \<and> complete_options [(''run'', \<lparr>option_names = Some [''a'', ''b'']\<rparr>)]
       [\<lparr>ttype = FuncName, value' = ''run'', index = 0\<rparr>,
        \<lparr>ttype = BlankLine, value' = [CHR 0x0A], index = 3\<rparr>,
        \<lparr>ttype = Literal, value' = ''x'', index = 4\<rparr>]
     = Empty_List
   \<and> complete_options []
       [\<lparr>ttype = HttpMethod, value' = ''GET'', index = 0\<rparr>,
        \<lparr>ttype = Assign, value' = ''='', index = 4\<rparr>]
     = Empty_List
   \<and> get_completions
        (\<lambda>s. [\<lparr>ttype = HttpMethod, value' = ''GET'', index = 0\<rparr>,
              \<lparr>ttype = Literal, value' = ''/idx'', index = 4\<rparr>,
              \<lparr>ttype = Error, value' = ''co'', index = 9\<rparr>])
        (\<lambda>s. []) [] [] \<lparr>text' = ''GET /idx co'', cursor_position = 11\<rparr>
     = Inr (Word_Completer [''conn='', ''runas=''] False)
   \<and> get_completions
        (\<lambda>s. [\<lparr>ttype = KeyName, value' = ''k'', index = 0\<rparr>,
              \<lparr>ttype = Assign, value' = ''='', index = 1\<rparr>])
        (\<lambda>s. []) [] [] \<lparr>text' = ''k='', cursor_position = 2\<rparr>
     = Inr Empty_List
   \<and> get_completions
        (\<lambda>s. [\<lparr>ttype = HttpMethod, value' = ''POST'', index = 0\<rparr>,
              \<lparr>ttype = Literal, value' = ''myfunc'', index = 5\<rparr>])
        (\<lambda>s. []) [(''myfunc'', \<lparr>option_names = Some [''a'', ''b'']\<rparr>)] []
        \<lparr>text' = ''POST myfunc '', cursor_position = 12\<rparr>
     = Inr (Word_Completer [''conn='', ''runas=''] False)"
proof -
  let ?lit = "\<lparr>ttype = Literal, value' = ''x'', index = 4\<rparr>"
  let ?names = "[(''run'', \<lparr>option_names = Some [''a'', ''b'']\<rparr>)]"
  have 1: "complete_options []
     [\<lparr>ttype = HttpMethod, value' = ''GET'', index = 0\<rparr>,
      \<lparr>ttype = Literal, value' = ''/idx'', index = 4\<rparr>]
     = Word_Completer [''conn='', ''runas=''] False"
    using complete_options_nearest_head [where
      post = "[\<lparr>ttype = Literal, value' = ''/idx'', index = 4\<rparr>]" and pre = "[]"
      and t = "\<lparr>ttype = HttpMethod, value' = ''GET'', index = 0\<rparr>" and names = "[]"]
    by simp
  have 2: "complete_options ?names [\<lparr>ttype = FuncName, value' = ''run'', index = 0\<rparr>, ?lit]
     = Word_Completer [''a='', ''b=''] False"
    using complete_options_nearest_head [where post = "[?lit]" and pre = "[]"
      and t = "\<lparr>ttype = FuncName, value' = ''run'', index = 0\<rparr>" and names = ?names]
    by simp
  have 3: "complete_options ?names
       [\<lparr>ttype = FuncName, value' = ''run'', index = 0\<rparr>,
        \<lparr>ttype = BlankLine, value' = [CHR 0x0A], index = 3\<rparr>, ?lit]
     = Empty_List"
    using complete_options_nearest_head [where post = "[?lit]"
      and pre = "[\<lparr>ttype = FuncName, value' = ''run'', index = 0\<rparr>]"
      and t = "\<lparr>ttype = BlankLine, value' = [CHR 0x0A], index = 3\<rparr>" and names = ?names]
    by simp
  have 4: "complete_options []
       [\<lparr>ttype = HttpMethod, value' = ''GET'', index = 0\<rparr>,
        \<lparr>ttype = Assign, value' = ''='', index = 4\<rparr>]
     = Empty_List"
    using complete_options_nearest_head [where post = "[]"
      and pre = "[\<lparr>ttype = HttpMethod, value' = ''GET'', index = 0\<rparr>]"
      and a = "\<lparr>ttype = Assign, value' = ''='', index = 4\<rparr>" and names = "[]"]
    by simp
  have 5: "get_completions
        (\<lambda>s. [\<lparr>ttype = HttpMethod, value' = ''GET'', index = 0\<rparr>,
              \<lparr>ttype = Literal, value' = ''/idx'', index = 4\<rparr>,
              \<lparr>ttype = Error, value' = ''co'', index = 9\<rparr>])
        (\<lambda>s. []) [] [] \<lparr>text' = ''GET /idx co'', cursor_position = 11\<rparr>
     = Inr (Word_Completer [''conn='', ''runas=''] False)"
    using complete_options_nearest_head [where post = "[]" and i = 2
      and tokenize = "\<lambda>s. [\<lparr>ttype = HttpMethod, value' = ''GET'', index = 0\<rparr>,
              \<lparr>ttype = Literal, value' = ''/idx'', index = 4\<rparr>,
              \<lparr>ttype = Error, value' = ''co'', index = 9\<rparr>]"
      and doc = "\<lparr>text' = ''GET /idx co'', cursor_position = 11\<rparr>"
      and url_path_lexer = "\<lambda>s. []" and names = "[]" and specs = "[]"]
    by (simp add: covers_def complete_options_def less_Suc_eq numeral_2_eq_2)
  have 6: "get_completions
        (\<lambda>s. [\<lparr>ttype = KeyName, value' = ''k'', index = 0\<rparr>,
              \<lparr>ttype = Assign, value' = ''='', index = 1\<rparr>])
        (\<lambda>s. []) [] [] \<lparr>text' = ''k='', cursor_position = 2\<rparr>
     = Inr Empty_List"
    using complete_options_nearest_head [where post = "[]" and i = 1
      and tokenize = "\<lambda>s. [\<lparr>ttype = KeyName, value' = ''k'', index = 0\<rparr>,
              \<lparr>ttype = Assign, value' = ''='', index = 1\<rparr>]"
      and doc = "\<lparr>text' = ''k='', cursor_position = 2\<rparr>"
      and url_path_lexer = "\<lambda>s. []" and names = "[]" and specs = "[]"]
    by (simp add: covers_def)
  have 7: "get_completions
        (\<lambda>s. [\<lparr>ttype = HttpMethod, value' = ''POST'', index = 0\<rparr>,
              \<lparr>ttype = Literal, value' = ''myfunc'', index = 5\<rparr>])
        (\<lambda>s. []) [(''myfunc'', \<lparr>option_names = Some [''a'', ''b'']\<rparr>)] []
        \<lparr>text' = ''POST myfunc '', cursor_position = 12\<rparr>
     = Inr (Word_Completer [''conn='', ''runas=''] False)"
    using complete_options_nearest_head [where post = "[]"
      and tokenize = "\<lambda>s. [\<lparr>ttype = HttpMethod, value' = ''POST'', index = 0\<rparr>,
              \<lparr>ttype = Literal, value' = ''myfunc'', index = 5\<rparr>]"
      and url_path_lexer = "\<lambda>s. []"
      and names = "[(''myfunc'', \<lparr>option_names = Some [''a'', ''b'']\<rparr>)]" and specs = "[]"]
    by simp
  from 1 2 3 4 5 6 7 show ?thesis by blast
qed

text \<open>
  The example of the claim as stated. The main lexer takes the word after the method as
  the path (a \<open>Literal\<close>), so the stream of \<^verbatim>\<open>POST myfunc \<close> holds no
  \<open>FuncName\<close> token. With the method token and the path token, the candidates at its
  end are the keys of a REST call, not the option names of \<open>myfunc\<close>; with the
  whitespace tokens kept in the stream, the located token is the last whitespace token and
  there are no candidates at all.
\<close>

theorem post_myfunc_options_counterexample:
  "peek_lexer ''POST myfunc '' =
     Some [\<lparr>ttype = Keyword, value' = ''POST'', index = 0\<rparr>,
           \<lparr>ttype = Whitespace, value' = '' '', index = 4\<rparr>,
           \<lparr>ttype = Literal, value' = ''myfunc'', index = 5\<rparr>,
           \<lparr>ttype = Whitespace, value' = '' '', index = 11\<rparr>]
   \<and> get_completions
     (\<lambda>s. [\<lparr>ttype = HttpMethod, value' = ''POST'', index = 0\<rparr>,
           \<lparr>ttype = Literal, value' = ''myfunc'', index = 5\<rparr>])
     (\<lambda>s. []) [(''myfunc'', \<lparr>option_names = Some [''a'', ''b'']\<rparr>)] []
     \<lparr>text' = ''POST myfunc '', cursor_position = 12\<rparr>
     = Inr (Word_Completer [''conn='', ''runas=''] False)
   \<and> get_completions
     (\<lambda>s. [\<lparr>ttype = HttpMethod, value' = ''POST'', index = 0\<rparr>,
           \<lparr>ttype = Literal, value' = ''myfunc'', index = 5\<rparr>])
     (\<lambda>s. []) [(''myfunc'', \<lparr>option_names = Some [''a'', ''b'']\<rparr>)] []
     \<lparr>text' = ''POST myfunc '', cursor_position = 12\<rparr>
     \<noteq> Inr (Word_Completer [''a='', ''b=''] False)
   \<and> get_completions
     (\<lambda>s. [\<lparr>ttype = HttpMethod, value' = ''POST'', index = 0\<rparr>,
           \<lparr>ttype = Whitespace, value' = '' '', index = 4\<rparr>,
           \<lparr>ttype = Literal, value' = ''myfunc'', index = 5\<rparr>,
           \<lparr>ttype = Whitespace, value' = '' '', index = 11\<rparr>])
     (\<lambda>s. []) [(''myfunc'', \<lparr>option_names = Some [''a'', ''b'']\<rparr>)] []
     \<lparr>text' = ''POST myfunc '', cursor_position = 12\<rparr>
     = Inr Empty_List"
proof -
  have "peek_lexer ''POST myfunc '' =
     Some [\<lparr>ttype = Keyword, value' = ''POST'', index = 0\<rparr>,
           \<lparr>ttype = Whitespace, value' = '' '', index = 4\<rparr>,
           \<lparr>ttype = Literal, value' = ''myfunc'', index = 5\<rparr>,
           \<lparr>ttype = Whitespace, value' = '' '', index = 11\<rparr>]"
    by code_simp
  then show ?thesis
    by (simp add: get_completions_def complete_options_def covers_def)
qed

section \<open>Properties of \<open>load_rest_api_spec\<close>\<close>

lemma dict_update_map_of:
  "map_of (dict_update d other) = map_of d ++ map_of (rev other)"
  unfolding dict_update_def
proof (induction other arbitrary: d)
  case Nil
  then show ?case by simp
next
  case (Cons kv other)
  obtain k v where kv: "kv = (k, v)" by (cases kv)
  have "map_of (fold (\<lambda>(k, v). AList.update k v) (kv # other) d)
      = map_of (AList.update k v d) ++ map_of (rev other)"
    using Cons.IH [of "AList.update k v d"] by (simp add: kv)
  also have "\<dots> = map_of d ++ map_of (rev (kv # other))"
    by (rule ext) (auto simp: kv update_conv' map_add_def split: option.splits)
  finally show ?case .
qed

lemma dict_update_distinct:
  "distinct (map fst d) \<Longrightarrow> distinct (map fst (dict_update d other))"
  unfolding dict_update_def
  by (induction other arbitrary: d) (auto simp: distinct_update)

lemma load_spec_files_ok:
  assumes "\<forall>f \<in> set files. fst f \<noteq> ''_common.json'' \<longrightarrow> snd f \<noteq> None"
    and "distinct (map fst specs)"
  shows "\<exists>specs'. load_spec_files files specs = Inr specs'
           \<and> distinct (map fst specs')
           \<and> map_of specs' =
               foldl (++) (map_of specs)
                 (map (\<lambda>f. map_of (rev (the (snd f))))
                    (filter (\<lambda>f. fst f \<noteq> ''_common.json'') files))"
  using assms
proof (induction files arbitrary: specs)
  case Nil
  then show ?case by simp
next
  case (Cons f files)
  obtain n c where f: "f = (n, c)" by (cases f)
  show ?case
  proof (cases "n = ''_common.json''")
    case True
    then show ?thesis
      using Cons.IH [of specs] Cons.prems by (simp add: f)
  next
    case False
    then obtain d where c: "c = Some d"
      using Cons.prems(1) by (auto simp: f)
    have "\<exists>specs'. load_spec_files files (dict_update specs d) = Inr specs'
           \<and> distinct (map fst specs')
           \<and> map_of specs' =
               foldl (++) (map_of (dict_update specs d))
                 (map (\<lambda>f. map_of (rev (the (snd f))))
                    (filter (\<lambda>f. fst f \<noteq> ''_common.json'') files))"
      using Cons.prems by (intro Cons.IH) (auto simp: dict_update_distinct)
    then show ?thesis
      using False by (simp add: f c dict_update_map_of)
  qed
qed

lemma foldl_map_add_last:
  "foldl (++) m ms k =
     (case filter (\<lambda>m'. m' k \<noteq> None) (rev ms) of [] \<Rightarrow> m k | m' # _ \<Rightarrow> m' k)"
proof (induction ms rule: rev_induct)
  case Nil
  then show ?case by simp
next
  case (snoc x xs)
  then show ?case
    by (cases "x k") (auto simp: map_add_def)
qed

text \<open>
  Claim C9. Loading reads every file of the directory whose name ends in
  \<^verbatim>\<open>.json\<close>, except \<^verbatim>\<open>_common.json\<close>, in the order of the listing, and merges
  their mappings into one: the result has each endpoint name once, and its entry for a name
  is the entry of the last file that has the name (within one file, the last item for a
  key is the one that a dictionary keeps). This holds when every file that is read is
  valid JSON. When the directory does not exist, loading returns the empty mapping, logs
  one warning and raises nothing.
\<close>

theorem load_rest_api_spec_merges:
  fixes listing :: "'v spec_file list"
  defines "loaded \<equiv> \<lambda>listing :: 'v spec_file list.
             map (\<lambda>f. the (snd f))
               (filter (\<lambda>f. endswith (fst f) ''.json'' \<and> fst f \<noteq> ''_common.json'') listing)"
  assumes "\<forall>f \<in> set listing.
             endswith (fst f) ''.json'' \<and> fst f \<noteq> ''_common.json'' \<longrightarrow> snd f \<noteq> None"
  shows "(\<exists>specs.
            load_rest_api_spec spec_dir (Some listing) = (Inr specs, [])
            \<and> distinct (map fst specs)
            \<and> (\<forall>k. map_of specs k =
                   (case filter (\<lambda>d. map_of (rev d) k \<noteq> None) (rev (loaded listing)) of
                      [] \<Rightarrow> None
                    | d # _ \<Rightarrow> map_of (rev d) k)))
         \<and> load_rest_api_spec spec_dir (None :: 'v spec_file list option) =
             (Inr [], [Warning (''spec directory does not exist: '' @ spec_dir)])"
proof
  let ?files = "filter (\<lambda>f. endswith (fst f) ''.json'') listing"
  have "\<forall>f \<in> set ?files. fst f \<noteq> ''_common.json'' \<longrightarrow> snd f \<noteq> None"
    using assms(2) by auto
  then obtain specs where specs: "load_spec_files ?files [] = Inr specs"
    "distinct (map fst specs)"
    "map_of specs = foldl (++) (map_of [])
                 (map (\<lambda>f. map_of (rev (the (snd f))))
                    (filter (\<lambda>f. fst f \<noteq> ''_common.json'') ?files))"
    using load_spec_files_ok [of ?files "[]"] by auto
  have maps: "map (\<lambda>f. map_of (rev (the (snd f))))
                    (filter (\<lambda>f. fst f \<noteq> ''_common.json'') ?files)
              = map (\<lambda>d. map_of (rev d)) (loaded listing)"
    by (simp add: loaded_def comp_def conj_commute)
  have "map_of specs k =
          (case filter (\<lambda>d. map_of (rev d) k \<noteq> None) (rev (loaded listing)) of
             [] \<Rightarrow> None | d # _ \<Rightarrow> map_of (rev d) k)" for k
  proof -
    have "map_of specs k =
        (case filter (\<lambda>m'. m' k \<noteq> None) (rev (map (\<lambda>d. map_of (rev d)) (loaded listing))) of
           [] \<Rightarrow> None | m' # _ \<Rightarrow> m' k)"
      unfolding specs(3) maps by (simp add: foldl_map_add_last)
    also have "\<dots> = (case filter (\<lambda>d. map_of (rev d) k \<noteq> None) (rev (loaded listing)) of
             [] \<Rightarrow> None | d # _ \<Rightarrow> map_of (rev d) k)"
      by (simp add: rev_map filter_map comp_def split: list.splits)
    finally show ?thesis .
  qed
  with specs(1,2)
  show "\<exists>specs.
            load_rest_api_spec spec_dir (Some listing) = (Inr specs, [])
            \<and> distinct (map fst specs)
            \<and> (\<forall>k. map_of specs k =
                   (case filter (\<lambda>d. map_of (rev d) k \<noteq> None) (rev (loaded listing)) of
                      [] \<Rightarrow> None
                    | d # _ \<Rightarrow> map_of (rev d) k))"
    by (simp add: load_rest_api_spec_def)
next
  show "load_rest_api_spec spec_dir (None :: 'v spec_file list option) =
             (Inr [], [Warning (''spec directory does not exist: '' @ spec_dir)])"
    by (simp add: load_rest_api_spec_def)
qed

theorem load_rest_api_spec_merges_witness:
  "load_rest_api_spec ''api''
     (Some [(''a.json'', Some [(''search'', 1::nat), (''count'', 2)]),
            (''_common.json'', None),
            (''notes.txt'', None),
            (''b.json'', Some [(''index'', 3), (''search'', 4)])])
   = (Inr [(''search'', 4), (''count'', 2), (''index'', 3)], [])
   \<and> load_rest_api_spec ''api'' (None :: nat spec_file list option)
       = (Inr [], [Warning ''spec directory does not exist: api''])"
proof -
  have "load_rest_api_spec ''api''
     (Some [(''a.json'', Some [(''search'', 1::nat), (''count'', 2)]),
            (''_common.json'', None),
            (''notes.txt'', None),
            (''b.json'', Some [(''index'', 3), (''search'', 4)])])
   = (Inr [(''search'', 4), (''count'', 2), (''index'', 3)], [])"
    by (simp add: load_rest_api_spec_def endswith_def dict_update_def)
  then show ?thesis
    using load_rest_api_spec_merges [of
        "[(''a.json'', Some [(''search'', 1::nat), (''count'', 2)]),
            (''_common.json'', None),
            (''notes.txt'', None),
            (''b.json'', Some [(''index'', 3), (''search'', 4)])]" "''api''"]
    by (simp add: endswith_def)
qed

section \<open>Properties of the regular-expression matcher\<close>

lemma star_cont:
  "star cls b a g k = Some y \<Longrightarrow>
   \<exists>m a'. a = m @ a' \<and> (\<forall>c \<in> set m. cls c) \<and> k (rev m @ b, a', g) = Some y"
proof (induction a arbitrary: b)
  case Nil
  then show ?case by simp
next
  case (Cons c a)
  show ?case
  proof (cases "cls c \<and> star cls (c # b) a g k \<noteq> None")
    case True
    then have "star cls (c # b) a g k = Some y"
      using Cons.prems by auto
    then obtain m a' where "a = m @ a'" "\<forall>c \<in> set m. cls c" "k (rev m @ c # b, a', g) = Some y"
      using Cons.IH by blast
    then have "c # a = (c # m) @ a' \<and> (\<forall>x \<in> set (c # m). cls x)
        \<and> k (rev (c # m) @ b, a', g) = Some y"
      using True by simp
    then show ?thesis by blast
  next
    case False
    then have "k (b, c # a, g) = Some y"
      using Cons.prems by (auto split: if_splits option.splits)
    then have "c # a = [] @ (c # a) \<and> (\<forall>x \<in> set []. cls x) \<and> k (rev [] @ b, c # a, g) = Some y"
      by simp
    then show ?thesis by blast
  qed
qed

lemma rmatch_cont:
  "rmatch r (b, a, g) k = Some y \<Longrightarrow>
   \<exists>m a' g'. a = m @ a' \<and> k (rev m @ b, a', g') = Some y \<and> (nonempty r \<longrightarrow> m \<noteq> [])"
proof (induction r arbitrary: b a g k y)
  case Eps
  then have "a = [] @ a \<and> k (rev [] @ b, a, g) = Some y" by simp
  then show ?case by fastforce
next
  case (Chr cls)
  then obtain c a' where "a = c # a'" "cls c" "k (c # b, a', g) = Some y"
    by (auto split: list.splits if_splits)
  then have "a = [c] @ a' \<and> k (rev [c] @ b, a', g) = Some y \<and> [c] \<noteq> []" by simp
  then show ?case by blast
next
  case (Star cls)
  then have "star cls b a g k = Some y" by simp
  from star_cont [OF this] show ?case by auto
next
  case (Plus cls)
  then obtain c a1 where c: "a = c # a1" "cls c" "star cls (c # b) a1 g k = Some y"
    by (auto split: list.splits if_splits)
  from star_cont [OF c(3)] obtain m a' where "a1 = m @ a'" "k (rev m @ c # b, a', g) = Some y"
    by blast
  then have "a = (c # m) @ a' \<and> k (rev (c # m) @ b, a', g) = Some y \<and> c # m \<noteq> []"
    using c by simp
  then show ?case by blast
next
  case (Seq r1 r2)
  then have "rmatch r1 (b, a, g) (\<lambda>s'. rmatch r2 s' k) = Some y" by simp
  from Seq.IH(1) [OF this] obtain m1 a1 g1 where 1: "a = m1 @ a1"
    "rmatch r2 (rev m1 @ b, a1, g1) k = Some y" "nonempty r1 \<longrightarrow> m1 \<noteq> []"
    by blast
  from Seq.IH(2) [OF 1(2)] obtain m2 a2 g2 where 2: "a1 = m2 @ a2"
    "k (rev m2 @ rev m1 @ b, a2, g2) = Some y" "nonempty r2 \<longrightarrow> m2 \<noteq> []"
    by blast
  have "a = (m1 @ m2) @ a2 \<and> k (rev (m1 @ m2) @ b, a2, g2) = Some y
      \<and> (nonempty (Seq r1 r2) \<longrightarrow> m1 @ m2 \<noteq> [])"
    using 1 2 by auto
  then show ?case by blast
next
  case (Alt r1 r2)
  show ?case
  proof (cases "rmatch r1 (b, a, g) k")
    case None
    then have "rmatch r2 (b, a, g) k = Some y" using Alt.prems by simp
    from Alt.IH(2) [OF this] show ?thesis by auto
  next
    case (Some m)
    then have "rmatch r1 (b, a, g) k = Some y" using Alt.prems by simp
    from Alt.IH(1) [OF this] show ?thesis by auto
  qed
next
  case (Opt r)
  show ?case
  proof (cases "rmatch r (b, a, g) k")
    case None
    then have "a = [] @ a \<and> k (rev [] @ b, a, g) = Some y" using Opt.prems by simp
    then show ?thesis by fastforce
  next
    case (Some m)
    then have "rmatch r (b, a, g) k = Some y" using Opt.prems by simp
    from Opt.IH [OF this] show ?thesis by auto
  qed
next
  case Bol
  then have "a = [] @ a \<and> k (rev [] @ b, a, g) = Some y" by (simp split: if_splits)
  then show ?case by fastforce
next
  case Word_Boundary
  then have "a = [] @ a \<and> k (rev [] @ b, a, g) = Some y" by (simp split: if_splits)
  then show ?case by fastforce
next
  case (Group n r)
  then have "rmatch r (b, a, g)
       (\<lambda>(b', a', g'). k (b', a', (n, length b, rev (take (length b' - length b) b')) # g'))
     = Some y" by simp
  from Group.IH [OF this] show ?case by auto
qed

lemma re_match_advances:
  assumes "re_match r b a = Some (b', a', g)"
  shows "\<exists>m. a = m @ a' \<and> b' = rev m @ b \<and> (nonempty r \<longrightarrow> m \<noteq> [])"
  using rmatch_cont [of r b a "[]" Some "(b', a', g)"] assms
  by (auto simp: re_match_def)

lemma first_match_rule:
  "first_match rules b a = Some (m, act, ns) \<Longrightarrow>
   \<exists>r. (r, act, ns) \<in> set rules \<and> re_match r b a = Some m"
  by (induction rules) (auto split: option.splits)

section \<open>Tokens that tile a text\<close>

lemma spans_append:
  "spans p xs s1 \<Longrightarrow> spans (p + length s1) ys s2 \<Longrightarrow> spans p (xs @ ys) (s1 @ s2)"
proof (induction xs arbitrary: p s1)
  case Nil
  then show ?case by simp
next
  case (Cons t xs)
  let ?v = "value' t"
  from Cons.prems(1) have t: "index t = p" "?v \<noteq> []" "take (length ?v) s1 = ?v"
    and rest: "spans (p + length ?v) xs (drop (length ?v) s1)"
    by simp_all
  have "length (take (length ?v) s1) = length ?v"
    using t(3) by simp
  then have len: "length ?v \<le> length s1"
    by simp
  have "spans (p + length ?v + length (drop (length ?v) s1)) ys s2"
    using Cons.prems(2) len by simp
  with rest have "spans (p + length ?v) (xs @ ys) (drop (length ?v) s1 @ s2)"
    by (rule Cons.IH)
  then show ?case
    using t len by simp
qed

lemma spans_shift:
  "spans p toks s \<Longrightarrow> spans (p + k) (map (\<lambda>t. t\<lparr>index := index t + k\<rparr>) toks) s"
proof (induction toks arbitrary: p s)
  case Nil
  then show ?case by simp
next
  case (Cons t toks)
  let ?v = "value' t"
  from Cons.prems have t: "index t = p" "?v \<noteq> []" "take (length ?v) s = ?v"
    and rest: "spans (p + length ?v) toks (drop (length ?v) s)"
    by simp_all
  from Cons.IH [OF rest]
  have "spans (p + k + length ?v) (map (\<lambda>t. t\<lparr>index := index t + k\<rparr>) toks)
          (drop (length ?v) s)"
    by (simp add: add.assoc add.commute [of k])
  then show ?case
    using t by simp
qed

lemma spans_concat: "spans p toks s \<Longrightarrow> concat (map value' toks) = s"
proof (induction toks arbitrary: p s)
  case Nil
  then show ?case by simp
next
  case (Cons t toks)
  then have "concat (map value' toks) = drop (length (value' t)) s"
    and "take (length (value' t)) s = value' t"
    by auto
  then show ?case
    by (metis append_take_drop_id concat.simps(2) list.simps(9))
qed


lemma spans_nonempty: "spans p toks s \<Longrightarrow> t \<in> set toks \<Longrightarrow> value' t \<noteq> []"
  by (induction toks arbitrary: p s) auto

lemma spans_lower: "spans p toks s \<Longrightarrow> t \<in> set toks \<Longrightarrow> p \<le> index t"
proof (induction toks arbitrary: p s)
  case Nil
  then show ?case by simp
next
  case (Cons u toks)
  show ?case
  proof (cases "t = u")
    case True
    then show ?thesis using Cons.prems by simp
  next
    case False
    then have "t \<in> set toks" using Cons.prems by simp
    moreover have "spans (p + length (value' u)) toks (drop (length (value' u)) s)"
      using Cons.prems by simp
    ultimately have "p + length (value' u) \<le> index t" by (rule Cons.IH [rotated])
    then show ?thesis by simp
  qed
qed

lemma spans_length: "spans p toks s \<Longrightarrow> length (concat (map value' toks)) = length s"
  by (simp add: spans_concat)

lemma spans_upper:
  "spans p toks s \<Longrightarrow> t \<in> set toks \<Longrightarrow> index t + length (value' t) \<le> p + length s"
proof (induction toks arbitrary: p s)
  case Nil
  then show ?case by simp
next
  case (Cons u toks)
  let ?v = "value' u"
  have "length (take (length ?v) s) = length ?v" using Cons.prems by simp
  then have len: "length ?v \<le> length s" by simp
  show ?case
  proof (cases "t = u")
    case True
    then show ?thesis using Cons.prems len by simp
  next
    case False
    then have "t \<in> set toks" using Cons.prems by simp
    moreover have "spans (p + length ?v) toks (drop (length ?v) s)"
      using Cons.prems by simp
    ultimately have "index t + length (value' t) \<le> p + length ?v + length (drop (length ?v) s)"
      by (rule Cons.IH [rotated])
    then show ?thesis using len by simp
  qed
qed

lemma spans_substring:
  "spans p toks s \<Longrightarrow> i < length toks \<Longrightarrow>
   take (length (value' (toks ! i))) (drop (index (toks ! i) - p) s) = value' (toks ! i)"
proof (induction toks arbitrary: p s i)
  case Nil
  then show ?case by simp
next
  case (Cons u toks)
  let ?v = "value' u"
  have rest: "spans (p + length ?v) toks (drop (length ?v) s)"
    using Cons.prems by simp
  show ?case
  proof (cases i)
    case 0
    then show ?thesis using Cons.prems by simp
  next
    case (Suc j)
    then have j: "j < length toks" using Cons.prems by simp
    from Cons.IH [OF rest j]
    have "take (length (value' (toks ! j)))
            (drop (index (toks ! j) - (p + length ?v)) (drop (length ?v) s)) = value' (toks ! j)" .
    moreover have "p + length ?v \<le> index (toks ! j)"
      using spans_lower [OF rest] j by simp
    ultimately show ?thesis
      using Suc by (simp add: add.commute)
  qed
qed

lemma spans_ordered:
  "spans p toks s \<Longrightarrow> i < j \<Longrightarrow> j < length toks \<Longrightarrow>
   index (toks ! i) + length (value' (toks ! i)) \<le> index (toks ! j)"
proof (induction toks arbitrary: p s i j)
  case Nil
  then show ?case by simp
next
  case (Cons u toks)
  let ?v = "value' u"
  have rest: "spans (p + length ?v) toks (drop (length ?v) s)"
    using Cons.prems by simp
  obtain j' where j': "j = Suc j'" "j' < length toks"
    using Cons.prems by (cases j) auto
  show ?case
  proof (cases i)
    case 0
    have "p + length ?v \<le> index (toks ! j')"
      using spans_lower [OF rest] j' by simp
    then show ?thesis using 0 j' Cons.prems by simp
  next
    case (Suc i')
    then have "i' < j'" using Cons.prems j' by simp
    from Cons.IH [OF rest this j'(2)] show ?thesis using Suc j' by simp
  qed
qed

lemma spans_covers:
  "spans p toks s \<Longrightarrow> p \<le> q \<Longrightarrow> q < p + length s \<Longrightarrow>
   \<exists>i < length toks. index (toks ! i) \<le> q \<and> q < index (toks ! i) + length (value' (toks ! i))"
proof (induction toks arbitrary: p s)
  case Nil
  then show ?case by simp
next
  case (Cons u toks)
  let ?v = "value' u"
  have rest: "spans (p + length ?v) toks (drop (length ?v) s)"
    and u: "index u = p"
    using Cons.prems by simp_all
  show ?case
  proof (cases "q < p + length ?v")
    case True
    then have "0 < length (u # toks) \<and> index ((u # toks) ! 0) \<le> q
        \<and> q < index ((u # toks) ! 0) + length (value' ((u # toks) ! 0))"
      using u Cons.prems by simp
    then show ?thesis by blast
  next
    case False
    then have "p + length ?v \<le> q" by simp
    moreover have "q < p + length ?v + length (drop (length ?v) s)"
      using Cons.prems False by simp
    ultimately obtain i where "i < length toks" "index (toks ! i) \<le> q"
      "q < index (toks ! i) + length (value' (toks ! i))"
      using Cons.IH [OF rest] by blast
    then have "Suc i < length (u # toks) \<and> index ((u # toks) ! Suc i) \<le> q
        \<and> q < index ((u # toks) ! Suc i) + length (value' ((u # toks) ! Suc i))"
      by simp
    then show ?thesis by blast
  qed
qed

lemma spans_covers_once:
  assumes "spans 0 toks s" and "q < length s"
  shows "\<exists>!i. i < length toks \<and> index (toks ! i) \<le> q
           \<and> q < index (toks ! i) + length (value' (toks ! i))"
proof -
  from spans_covers [OF assms(1), of q] assms(2)
  obtain i where i: "i < length toks" "index (toks ! i) \<le> q"
    "q < index (toks ! i) + length (value' (toks ! i))" by auto
  have "j = i" if j: "j < length toks" "index (toks ! j) \<le> q"
    "q < index (toks ! j) + length (value' (toks ! j))" for j
  proof (rule ccontr)
    assume "j \<noteq> i"
    then consider "i < j" | "j < i" by arith
    then show False
    proof cases
      case 1
      from spans_ordered [OF assms(1) 1 j(1)] i(3) j(2) show False by simp
    next
      case 2
      from spans_ordered [OF assms(1) 2 i(1)] j(3) i(2) show False by simp
    qed
  qed
  with i show ?thesis by blast
qed

section \<open>The payload lexer returns, and its tokens tile the text\<close>

lemma payload_rules_nonempty:
  "(r, act, ns) \<in> set (payload_tokens st) \<Longrightarrow> nonempty r \<and> (\<exists>ty. act = Token ty)"
  by (cases st)
    (auto simp: value_rules_def numbers_rules_def dqs_def sqs_def innerstring_rules_def
      comment_rule_def whitespace_rule_def lit_def words_def)

lemma matched_text: "rev (take (length (rev m @ b) - length b) (rev m @ b)) = m"
  by simp

lemma token_rule_step:
  assumes fm: "first_match rules b a = Some ((b', a', g), act, ns)"
    and rules: "\<And>r act ns. (r, act, ns) \<in> set rules \<Longrightarrow> nonempty r \<and> (\<exists>ty. act = Token ty)"
  shows "\<exists>m ty. m \<noteq> [] \<and> a = m @ a' \<and> b' = rev m @ b \<and> act = Token ty
           \<and> run_action act (length b) (rev (take (length b' - length b) b')) g
               = Some [\<lparr>ttype = ty, value' = m, index = length b\<rparr>]"
proof -
  from first_match_rule [OF fm] obtain r where r: "(r, act, ns) \<in> set rules"
    "re_match r b a = Some (b', a', g)" by blast
  from rules [OF r(1)] obtain ty where ne: "nonempty r" and act: "act = Token ty" by blast
  from re_match_advances [OF r(2)] ne obtain m where m: "a = m @ a'" "b' = rev m @ b" "m \<noteq> []"
    by blast
  show ?thesis
    using m act by (auto simp: matched_text)
qed

lemma payload_step:
  "(lex_step payload_tokens P_root b a stack = Break \<and> a = []) \<or>
   (\<exists>toks m a' stack'.
      lex_step payload_tokens P_root b a stack = Step toks (rev m @ b) a' stack'
      \<and> a = m @ a' \<and> m \<noteq> [] \<and> spans (length b) toks m)"
proof (cases "first_match (payload_tokens (last stack)) b a")
  case None
  show ?thesis
  proof (cases a)
    case Nil
    then show ?thesis using None by (simp add: lex_step_def)
  next
    case (Cons c a')
    have "lex_step payload_tokens P_root b a stack =
        Step [\<lparr>ttype = (if c = CHR 0x0A then Whitespace else Error), value' = [c],
               index = length b\<rparr>] (rev [c] @ b) a'
             (if c = CHR 0x0A then [P_root] else stack)"
      using None Cons by (simp add: lex_step_def)
    moreover have "a = [c] @ a'" "[c] \<noteq> []" using Cons by simp_all
    moreover have "spans (length b)
        [\<lparr>ttype = (if c = CHR 0x0A then Whitespace else Error), value' = [c],
               index = length b\<rparr>] [c]" by simp
    ultimately show ?thesis by blast
  qed
next
  case (Some x)
  obtain b' a' g act ns where x: "x = ((b', a', g), act, ns)"
    by (metis prod_cases3)
  from token_rule_step [OF Some [unfolded x]] payload_rules_nonempty
  obtain m ty where m: "m \<noteq> []" "a = m @ a'" "b' = rev m @ b" "act = Token ty"
    "run_action act (length b) (rev (take (length b' - length b) b')) g
               = Some [\<lparr>ttype = ty, value' = m, index = length b\<rparr>]"
    by blast
  have "lex_step payload_tokens P_root b a stack =
      Step [\<lparr>ttype = ty, value' = m, index = length b\<rparr>] (rev m @ b) a' (apply_ops ns stack)"
    using Some x m(3,5) by (simp add: lex_step_def)
  moreover have "spans (length b) [\<lparr>ttype = ty, value' = m, index = length b\<rparr>] m"
    using m(1) by simp
  ultimately show ?thesis using m(1,2) by blast
qed

lemma payload_loop_total:
  "\<exists>toks. lex_loop payload_tokens P_root b a stack = Some toks \<and> spans (length b) toks a"
proof (induction "length a" arbitrary: a b stack rule: less_induct)
  case less
  from payload_step [of b a stack] show ?case
  proof
    assume "lex_step payload_tokens P_root b a stack = Break \<and> a = []"
    then have brk: "lex_step payload_tokens P_root b a stack = Break" and nil: "a = []"
      by blast+
    have "lex_loop payload_tokens P_root b a stack = Some []"
      by (subst lex_loop.simps) (simp add: brk)
    then show ?thesis
      using nil by simp
  next
    assume "\<exists>toks m a' stack'.
      lex_step payload_tokens P_root b a stack = Step toks (rev m @ b) a' stack'
      \<and> a = m @ a' \<and> m \<noteq> [] \<and> spans (length b) toks m"
    then obtain toks m a' stack' where
      step: "lex_step payload_tokens P_root b a stack = Step toks (rev m @ b) a' stack'"
      and a: "a = m @ a'" "m \<noteq> []" and sp: "spans (length b) toks m"
      by blast
    have "length a' < length a" using a by simp
    from less [OF this, of "rev m @ b" stack'] obtain rest where
      rest: "lex_loop payload_tokens P_root (rev m @ b) a' stack' = Some rest"
      "spans (length b + length m) rest a'"
      by (auto simp: add.commute)
    have "lex_loop payload_tokens P_root b a stack = Some (toks @ rest)"
      by (subst lex_loop.simps) (simp add: step rest(1))
    moreover have "spans (length b) (toks @ rest) a"
      unfolding a(1) using sp rest(2) by (rule spans_append)
    ultimately show ?thesis by blast
  qed
qed

lemma payload_lexer_total: "\<exists>toks. payload_lexer s = Some toks \<and> spans 0 toks s"
  using payload_loop_total [of "[]" s "[P_root]"]
  by (simp add: payload_lexer_def get_tokens_unprocessed_def)

section \<open>The main lexer returns, and its tokens tile the text\<close>

lemma star_all:
  "k (rev a @ b, [], g) = Some y \<Longrightarrow> star (\<lambda>c. True) b a g k = Some y"
  by (induction a arbitrary: b) auto

lemma payload_rule_match:
  "re_match (Group 1 (Star (\<lambda>c. True))) b a = Some (rev a @ b, [], [(1, length b, a)])"
  by (simp add: re_match_def star_all)

lemma percent_rule_match:
  assumes "re_match (seqs [Bol, Group 1 (Star is_space), Group 2 (lit ''%'')]) b a
             = Some (b', a', g)"
  shows "\<exists>ws c. b = [] \<and> a = ws @ c # a' \<and> b' = c # rev ws
           \<and> g = [(2, length ws, [c]), (1, 0, ws)]"
  using assms
  apply (simp add: re_match_def lit_def split: if_splits)
  apply (drule star_cont)
  apply (elim exE conjE)
  subgoal for m a1
    by (cases a1) (auto split: if_splits)
  done

lemma peek_rules_cases:
  assumes "(r, act, ns) \<in> set (peek_tokens st)"
  shows "(nonempty r \<and> (\<exists>ty. act = Token ty))
       \<or> (st = S_root \<and> r = seqs [Bol, Group 1 (Star is_space), Group 2 (lit ''%'')]
            \<and> act = By_Groups [Group_Token Whitespace, Group_Token Percent])
       \<or> (st = S_payload \<and> r = Group 1 (Star (\<lambda>c. True))
            \<and> act = By_Groups [Using payload_lexer])"
  using assms
  by (cases st) (auto simp: comment_rule_def whitespace_rule_def lit_def words_def)

lemma peek_stack_step:
  assumes "(r, act, ns) \<in> set (peek_tokens (last statestack))" and "peek_stack_ok statestack"
  shows "peek_stack_ok (apply_ops ns statestack)"
  using assms
  by (auto simp: peek_stack_ok_def comment_rule_def whitespace_rule_def)

lemma peek_payload_pop:
  assumes "(r, act, ns) \<in> set (peek_tokens (last statestack))" and "peek_stack_ok statestack"
    and "last statestack = S_payload"
  shows "apply_ops ns statestack = [S_root]"
  using assms
  by (auto simp: peek_stack_ok_def)

lemma spans_nil: "spans p toks [] \<Longrightarrow> toks = []"
  by (cases toks) auto

lemma peek_rule_ok:
  assumes ok: "peek_stack_ok statestack"
    and fm: "first_match (peek_tokens (last statestack)) b a = Some ((b', a', g), act, ns)"
  shows "\<exists>m toks. a = m @ a' \<and> b' = rev m @ b
           \<and> run_action act (length b) (rev (take (length b' - length b) b')) g = Some toks
           \<and> spans (length b) toks m
           \<and> peek_stack_ok (apply_ops ns statestack)
           \<and> (m = [] \<longrightarrow> last statestack = S_payload \<and> a = [] \<and> toks = []
                \<and> apply_ops ns statestack = [S_root])"
proof -
  from first_match_rule [OF fm] obtain r where r: "(r, act, ns) \<in> set (peek_tokens (last statestack))"
    "re_match r b a = Some (b', a', g)" by blast
  note ok' = peek_stack_step [OF r(1) ok]
  from peek_rules_cases [OF r(1)] consider
      (token) ty where "nonempty r" "act = Token ty"
    | (percent) "r = seqs [Bol, Group 1 (Star is_space), Group 2 (lit ''%'')]"
        "act = By_Groups [Group_Token Whitespace, Group_Token Percent]"
    | (payload) "last statestack = S_payload" "r = Group 1 (Star (\<lambda>c. True))"
        "act = By_Groups [Using payload_lexer]"
    by blast
  then show ?thesis
  proof cases
    case token
    from re_match_advances [OF r(2)] token(1) obtain m where
      m: "a = m @ a'" "b' = rev m @ b" "m \<noteq> []" by blast
    have "run_action act (length b) (rev (take (length b' - length b) b')) g
        = Some [\<lparr>ttype = ty, value' = m, index = length b\<rparr>]"
      using m token(2) by simp
    moreover have "spans (length b) [\<lparr>ttype = ty, value' = m, index = length b\<rparr>] m"
      using m(3) by simp
    ultimately show ?thesis using m ok' by blast
  next
    case percent
    from percent_rule_match [OF r(2) [unfolded percent(1)]] obtain ws c where
      w: "b = []" "a = ws @ c # a'" "b' = c # rev ws" "g = [(2, length ws, [c]), (1, 0, ws)]"
      by blast
    let ?toks = "(if ws \<noteq> [] then [\<lparr>ttype = Whitespace, value' = ws, index = 0\<rparr>] else [])
                 @ [\<lparr>ttype = Percent, value' = [c], index = length ws\<rparr>]"
    have "run_action act (length b) (rev (take (length b' - length b) b')) g = Some ?toks"
      using w percent(2) by simp
    moreover have "spans (length b) ?toks (ws @ [c])"
      using w(1) by simp
    moreover have "a = (ws @ [c]) @ a'" "b' = rev (ws @ [c]) @ b" "ws @ [c] \<noteq> []"
      using w by simp_all
    ultimately show ?thesis using ok' by blast
  next
    case payload
    from r(2) [unfolded payload(2) payload_rule_match]
    have m: "b' = rev a @ b" "a' = []" "g = [(1, length b, a)]"
      by simp_all
    from payload_lexer_total [of a] obtain toks where
      toks: "payload_lexer a = Some toks" "spans 0 toks a" by blast
    let ?toks = "map (\<lambda>t. t\<lparr>index := index t + length b\<rparr>) toks"
    have "run_action act (length b) (rev (take (length b' - length b) b')) g = Some ?toks"
      using m payload(3) toks(1) by simp
    moreover have "spans (length b) ?toks a"
      using spans_shift [OF toks(2), of "length b"] by simp
    moreover have "a = [] \<longrightarrow> ?toks = []"
      using toks(2) by (auto dest: spans_nil)
    moreover have "apply_ops ns statestack = [S_root]"
      using peek_payload_pop [OF r(1) ok payload(1)] .
    moreover have "a = a @ a'" using m by simp
    ultimately show ?thesis using m(1) payload(1) ok' by blast
  qed
qed

lemma peek_step:
  assumes ok: "peek_stack_ok statestack"
  shows "(lex_step peek_tokens S_root b a statestack = Break \<and> a = []) \<or>
   (\<exists>toks m a' statestack'.
      lex_step peek_tokens S_root b a statestack = Step toks (rev m @ b) a' statestack'
      \<and> a = m @ a' \<and> spans (length b) toks m \<and> peek_stack_ok statestack'
      \<and> (m = [] \<longrightarrow> last statestack = S_payload \<and> a = [] \<and> toks = []
                \<and> statestack' = [S_root]))"
proof (cases "first_match (peek_tokens (last statestack)) b a")
  case None
  show ?thesis
  proof (cases a)
    case Nil
    then show ?thesis using None by (simp add: lex_step_def)
  next
    case (Cons c a')
    let ?tok = "\<lparr>ttype = (if c = CHR 0x0A then Whitespace else Error), value' = [c],
               index = length b\<rparr>"
    let ?st = "if c = CHR 0x0A then [S_root] else statestack"
    have "lex_step peek_tokens S_root b a statestack = Step [?tok] (rev [c] @ b) a' ?st"
      using None Cons by (simp add: lex_step_def)
    moreover have "a = [c] @ a'" "[c] \<noteq> []" using Cons by simp_all
    moreover have "spans (length b) [?tok] [c]" by simp
    moreover have "peek_stack_ok ?st" using ok by (simp add: peek_stack_ok_def)
    ultimately show ?thesis by blast
  qed
next
  case (Some x)
  obtain b' a' g act ns where x: "x = ((b', a', g), act, ns)"
    by (metis prod_cases3)
  from peek_rule_ok [OF ok Some [unfolded x]] obtain m toks where
    m: "a = m @ a'" "b' = rev m @ b"
    "run_action act (length b) (rev (take (length b' - length b) b')) g = Some toks"
    "spans (length b) toks m" "peek_stack_ok (apply_ops ns statestack)"
    "m = [] \<longrightarrow> last statestack = S_payload \<and> a = [] \<and> toks = []
                \<and> apply_ops ns statestack = [S_root]"
    by blast
  have "lex_step peek_tokens S_root b a statestack =
      Step toks (rev m @ b) a' (apply_ops ns statestack)"
    using Some x m(2,3) by (simp add: lex_step_def)
  then show ?thesis using m by blast
qed

lemma peek_loop_end:
  assumes "peek_stack_ok statestack" and "last statestack \<noteq> S_payload"
  shows "lex_loop peek_tokens S_root b [] statestack = Some []"
proof -
  from peek_step [OF assms(1), of b "[]"] assms(2)
  have "lex_step peek_tokens S_root b [] statestack = Break" by auto
  then show ?thesis
    by (subst lex_loop.simps) simp
qed

lemma peek_loop_total:
  "peek_stack_ok statestack \<Longrightarrow>
   \<exists>toks. lex_loop peek_tokens S_root b a statestack = Some toks \<and> spans (length b) toks a"
proof (induction "length a" arbitrary: a b statestack rule: less_induct)
  case less
  from peek_step [OF less.prems, of b a] show ?case
  proof
    assume "lex_step peek_tokens S_root b a statestack = Break \<and> a = []"
    then have brk: "lex_step peek_tokens S_root b a statestack = Break" and nil: "a = []"
      by blast+
    have "lex_loop peek_tokens S_root b a statestack = Some []"
      by (subst lex_loop.simps) (simp add: brk)
    then show ?thesis
      using nil by simp
  next
    assume "\<exists>toks m a' statestack'.
      lex_step peek_tokens S_root b a statestack = Step toks (rev m @ b) a' statestack'
      \<and> a = m @ a' \<and> spans (length b) toks m \<and> peek_stack_ok statestack'
      \<and> (m = [] \<longrightarrow> last statestack = S_payload \<and> a = [] \<and> toks = []
                \<and> statestack' = [S_root])"
    then obtain toks m a' statestack' where
      step: "lex_step peek_tokens S_root b a statestack = Step toks (rev m @ b) a' statestack'"
      and a: "a = m @ a'" and sp: "spans (length b) toks m" and ok': "peek_stack_ok statestack'"
      and empty: "m = [] \<longrightarrow> last statestack = S_payload \<and> a = [] \<and> toks = []
                \<and> statestack' = [S_root]"
      by blast
    have "\<exists>rest. lex_loop peek_tokens S_root (rev m @ b) a' statestack' = Some rest
            \<and> spans (length b + length m) rest a'"
    proof (cases "m = []")
      case True
      with empty a have "a' = []" "statestack' = [S_root]" by simp_all
      then show ?thesis
        using peek_loop_end [of "[S_root]" "rev m @ b"]
        by (simp add: peek_stack_ok_def)
    next
      case False
      then have "length a' < length a" using a by simp
      from less.hyps [OF this ok', of "rev m @ b"] show ?thesis
        by (simp add: add.commute)
    qed
    then obtain rest where
      rest: "lex_loop peek_tokens S_root (rev m @ b) a' statestack' = Some rest"
      "spans (length b + length m) rest a'"
      by blast
    have "lex_loop peek_tokens S_root b a statestack = Some (toks @ rest)"
      by (subst lex_loop.simps) (simp add: step rest(1))
    moreover have "spans (length b) (toks @ rest) a"
      unfolding a using sp rest(2) by (rule spans_append)
    ultimately show ?thesis by blast
  qed
qed

lemma peek_lexer_total: "\<exists>toks. peek_lexer s = Some toks \<and> spans 0 toks s"
  using peek_loop_total [of "[S_root]" "[]" s]
  by (simp add: peek_lexer_def get_tokens_unprocessed_def peek_stack_ok_def)

lemma first_match_None:
  "first_match rules b a = None \<Longrightarrow> (r, act, ns) \<in> set rules \<Longrightarrow> re_match r b a = None"
  by (induction rules) (auto split: option.splits)

lemma star_total: "(\<And>s. k s \<noteq> None) \<Longrightarrow> star cls b a g k \<noteq> None"
  by (induction a arbitrary: b) (auto split: option.splits)

lemma whitespace_rule_matches: "is_space c \<Longrightarrow> re_match (Plus is_space) b (c # a) \<noteq> None"
  using star_total [of Some is_space "c # b" a "[]"] by (simp add: re_match_def)

lemma peek_whitespace_matched:
  assumes "first_match (peek_tokens st) b (c # a) = None"
  shows "\<not> is_space c"
proof
  assume sp: "is_space c"
  show False
  proof (cases "st = S_payload")
    case True
    have "(Group 1 (Star (\<lambda>c. True)), By_Groups [Using payload_lexer], [Pop])
        \<in> set (peek_tokens st)" using True by simp
    from first_match_None [OF assms this, unfolded payload_rule_match] show False
      by simp
  next
    case False
    then have "(Plus is_space, Token Whitespace, []) \<in> set (peek_tokens st)"
      by (cases st) (auto simp: whitespace_rule_def)
    from first_match_None [OF assms this] whitespace_rule_matches [OF sp] show False
      by blast
  qed
qed

lemma is_space_newline: "is_space (CHR 0x0A)"
  by (simp add: is_space_def)

lemma peek_no_match_error:
  assumes "first_match (peek_tokens (last statestack)) b (c # a) = None"
  shows "lex_step peek_tokens S_root b (c # a) statestack =
           Step [\<lparr>ttype = Error, value' = [c], index = length b\<rparr>] (c # b) a statestack"
proof -
  have "c \<noteq> CHR 0x0A"
    using peek_whitespace_matched [OF assms] is_space_newline by auto
  then show ?thesis
    using assms by (simp add: lex_step_def)
qed

text \<open>
  Claim C4, as amended. For every input string the main lexer's
  \<open>get_tokens_unprocessed\<close> terminates. Every round of its loop on a stack of states
  that the lexer can reach either ends the loop at the end of the text or moves on by at
  least one character, with one exception: the rule of the state \<^verbatim>\<open>payload\<close>,
  \<^verbatim>\<open>(?s)(.*)\<close>, matches the empty rest at the end of the text, yields nothing and
  pops the state, after which the loop ends. When no rule of the main lexer matches at a
  character, the round yields an \<open>Error\<close> token with that one character. The tokens
  that are returned are not empty, each is the text at its offset, they are strictly
  ordered by start offset and do not overlap, and every character of the input, whitespace
  or not, lies in exactly one of them.
\<close>

theorem peek_lexer_tokens:
  "(\<exists>toks. peek_lexer text = Some toks
      \<and> concat (map value' toks) = text
      \<and> (\<forall>i < length toks.
            value' (toks ! i) \<noteq> []
            \<and> take (length (value' (toks ! i))) (drop (index (toks ! i)) text) = value' (toks ! i))
      \<and> (\<forall>i j. i < j \<and> j < length toks \<longrightarrow>
            index (toks ! i) < index (toks ! j)
            \<and> index (toks ! i) + length (value' (toks ! i)) \<le> index (toks ! j))
      \<and> (\<forall>p < length text.
            \<exists>!i. i < length toks \<and> index (toks ! i) \<le> p
                 \<and> p < index (toks ! i) + length (value' (toks ! i))))
   \<and> peek_stack_ok [S_root]
   \<and> (peek_stack_ok statestack \<longrightarrow>
        (lex_step peek_tokens S_root b a statestack = Break \<and> a = [])
        \<or> (\<exists>toks m a' statestack'.
             lex_step peek_tokens S_root b a statestack = Step toks (rev m @ b) a' statestack'
             \<and> a = m @ a' \<and> peek_stack_ok statestack'
             \<and> (m \<noteq> [] \<or> (last statestack = S_payload \<and> a = [] \<and> toks = []
                             \<and> statestack' = [S_root]))))
   \<and> (first_match (peek_tokens (last statestack)) b (c # a') = None \<longrightarrow>
        lex_step peek_tokens S_root b (c # a') statestack =
          Step [\<lparr>ttype = Error, value' = [c], index = length b\<rparr>] (c # b) a' statestack)"
proof -
  from peek_lexer_total [of "text"] obtain toks where
    toks: "peek_lexer text = Some toks" "spans 0 toks text" by blast
  have 1: "concat (map value' toks) = text"
    using toks(2) by (rule spans_concat)
  have 2: "\<forall>i < length toks.
            value' (toks ! i) \<noteq> []
            \<and> take (length (value' (toks ! i))) (drop (index (toks ! i)) text) = value' (toks ! i)"
    using spans_nonempty [OF toks(2)] spans_substring [OF toks(2)] by simp
  have 3: "\<forall>i j. i < j \<and> j < length toks \<longrightarrow>
            index (toks ! i) < index (toks ! j)
            \<and> index (toks ! i) + length (value' (toks ! i)) \<le> index (toks ! j)"
  proof (intro allI impI)
    fix i j assume ij: "i < j \<and> j < length toks"
    then have le: "index (toks ! i) + length (value' (toks ! i)) \<le> index (toks ! j)"
      using spans_ordered [OF toks(2)] by blast
    moreover have "value' (toks ! i) \<noteq> []"
      using 2 ij by simp
    ultimately show "index (toks ! i) < index (toks ! j)
            \<and> index (toks ! i) + length (value' (toks ! i)) \<le> index (toks ! j)"
      by (cases "value' (toks ! i)") auto
  qed
  have 4: "\<forall>p < length text.
            \<exists>!i. i < length toks \<and> index (toks ! i) \<le> p
                 \<and> p < index (toks ! i) + length (value' (toks ! i))"
    using spans_covers_once [OF toks(2)] by blast
  have 5: "peek_stack_ok [S_root]"
    by (simp add: peek_stack_ok_def)
  have 6: "peek_stack_ok statestack \<longrightarrow>
        (lex_step peek_tokens S_root b a statestack = Break \<and> a = [])
        \<or> (\<exists>toks m a' statestack'.
             lex_step peek_tokens S_root b a statestack = Step toks (rev m @ b) a' statestack'
             \<and> a = m @ a' \<and> peek_stack_ok statestack'
             \<and> (m \<noteq> [] \<or> (last statestack = S_payload \<and> a = [] \<and> toks = []
                             \<and> statestack' = [S_root])))"
    using peek_step [of statestack b a] by blast
  have 7: "first_match (peek_tokens (last statestack)) b (c # a') = None \<longrightarrow>
        lex_step peek_tokens S_root b (c # a') statestack =
          Step [\<lparr>ttype = Error, value' = [c], index = length b\<rparr>] (c # b) a' statestack"
    using peek_no_match_error by blast
  from toks(1) 1 2 3 4 5 6 7 show ?thesis by blast
qed

lemma payload_step_at_end:
  "lex_step peek_tokens S_root ''x/ TEG'' [] [S_root, S_payload] = Step [] ''x/ TEG'' [] [S_root]"
  by code_simp

theorem peek_lexer_tokens_witness:
  "(\<exists>toks. peek_lexer ''GET /x'' = Some toks \<and> concat (map value' toks) = ''GET /x'')
   \<and> lex_step peek_tokens S_root ''x/ TEG'' [] [S_root, S_payload]
       = Step [] ''x/ TEG'' [] [S_root]
   \<and> lex_step peek_tokens S_root [] ''foo'' [S_root]
       = Step [\<lparr>ttype = Error, value' = ''f'', index = 0\<rparr>] ''f'' ''oo'' [S_root]"
proof -
  have none: "first_match (peek_tokens (last [S_root])) [] ''foo'' = None"
    by code_simp
  have ok: "peek_stack_ok [S_root]"
    by (simp add: peek_stack_ok_def)
  from peek_lexer_tokens [of "''GET /x''" "[S_root]" "[]" "''foo''" "CHR ''f''" "''oo''"] none ok
  have "\<exists>toks. peek_lexer ''GET /x'' = Some toks \<and> concat (map value' toks) = ''GET /x''"
    and "lex_step peek_tokens S_root [] ''foo'' [S_root]
       = Step [\<lparr>ttype = Error, value' = ''f'', index = 0\<rparr>] ''f'' ''oo'' [S_root]"
    by auto
  with payload_step_at_end show ?thesis
    by blast
qed

text \<open>
  The claim as stated has every round move on by at least one character. On
  \<^verbatim>\<open>GET /x\<close> the fourth round, in the state \<^verbatim>\<open>payload\<close> at the end of the
  text, leaves the position where it is.
\<close>

theorem payload_rule_no_advance_counterexample:
  "peek_lexer ''GET /x'' =
     Some [\<lparr>ttype = Keyword, value' = ''GET'', index = 0\<rparr>,
           \<lparr>ttype = Whitespace, value' = '' '', index = 3\<rparr>,
           \<lparr>ttype = Literal, value' = ''/x'', index = 4\<rparr>]
   \<and> lex_step peek_tokens S_root [] ''GET /x'' [S_root]
       = Step [\<lparr>ttype = Keyword, value' = ''GET'', index = 0\<rparr>]
           ''TEG'' '' /x'' [S_root, S_path]
   \<and> lex_step peek_tokens S_root ''TEG'' '' /x'' [S_root, S_path]
       = Step [\<lparr>ttype = Whitespace, value' = '' '', index = 3\<rparr>]
           '' TEG'' ''/x'' [S_root, S_path]
   \<and> lex_step peek_tokens S_root '' TEG'' ''/x'' [S_root, S_path]
       = Step [\<lparr>ttype = Literal, value' = ''/x'', index = 4\<rparr>]
           ''x/ TEG'' [] [S_root, S_payload]
   \<and> lex_step peek_tokens S_root ''x/ TEG'' [] [S_root, S_payload]
       = Step [] ''x/ TEG'' [] [S_root]
   \<and> lex_step peek_tokens S_root ''x/ TEG'' [] [S_root] = Break"
  by code_simp

text \<open>
  Claim C5 asks that a single-quoted value string ends at its closing single quote, as a
  double-quoted one ends at its double quote. In the payload
  \<^verbatim>\<open>{"a":'b'}\<close> the closing single quote is yielded as a string token but the
  state \<^verbatim>\<open>'sqs'\<close> is not left, so the closing brace is lexed as string text; in
  \<^verbatim>\<open>{"a":"b"}\<close> the brace is a \<open>CurlyRight\<close> token. One round in the state
  \<^verbatim>\<open>'sqs'\<close> at a single quote leaves the stack as it is, where the states
  \<^verbatim>\<open>'dqs'\<close> and \<^verbatim>\<open>'sqs-key'\<close> pop at their closing quotes.
\<close>

theorem payload_single_quoted_value:
  "payload_lexer [CHR ''{'', CHR 0x22, CHR ''a'', CHR 0x22, CHR '':'',
                  CHR 0x27, CHR ''b'', CHR 0x27, CHR ''}'']
     = Some [\<lparr>ttype = CurlyLeft, value' = ''{'', index = 0\<rparr>,
             \<lparr>ttype = StringSymbol, value' = [CHR 0x22], index = 1\<rparr>,
             \<lparr>ttype = StringSymbol, value' = ''a'', index = 2\<rparr>,
             \<lparr>ttype = StringSymbol, value' = [CHR 0x22], index = 3\<rparr>,
             \<lparr>ttype = Colon, value' = '':'', index = 4\<rparr>,
             \<lparr>ttype = StringSingle, value' = [CHR 0x27], index = 5\<rparr>,
             \<lparr>ttype = StringSingle, value' = ''b'', index = 6\<rparr>,
             \<lparr>ttype = StringSingle, value' = [CHR 0x27], index = 7\<rparr>,
             \<lparr>ttype = StringSingle, value' = ''}'', index = 8\<rparr>]
   \<and> payload_lexer [CHR ''{'', CHR 0x22, CHR ''a'', CHR 0x22, CHR '':'',
                    CHR 0x22, CHR ''b'', CHR 0x22, CHR ''}'']
     = Some [\<lparr>ttype = CurlyLeft, value' = ''{'', index = 0\<rparr>,
             \<lparr>ttype = StringSymbol, value' = [CHR 0x22], index = 1\<rparr>,
             \<lparr>ttype = StringSymbol, value' = ''a'', index = 2\<rparr>,
             \<lparr>ttype = StringSymbol, value' = [CHR 0x22], index = 3\<rparr>,
             \<lparr>ttype = Colon, value' = '':'', index = 4\<rparr>,
             \<lparr>ttype = StringDouble, value' = [CHR 0x22], index = 5\<rparr>,
             \<lparr>ttype = StringDouble, value' = ''b'', index = 6\<rparr>,
             \<lparr>ttype = StringDouble, value' = [CHR 0x22], index = 7\<rparr>,
             \<lparr>ttype = CurlyRight, value' = ''}'', index = 8\<rparr>]
   \<and> lex_step payload_tokens P_root [] [CHR 0x27] [P_root, P_dict_value, P_sqs]
     = Step [\<lparr>ttype = StringSingle, value' = [CHR 0x27], index = 0\<rparr>] [CHR 0x27] []
         [P_root, P_dict_value, P_sqs]
   \<and> lex_step payload_tokens P_root [] [CHR 0x22] [P_root, P_dict_value, P_dqs]
     = Step [\<lparr>ttype = StringDouble, value' = [CHR 0x22], index = 0\<rparr>] [CHR 0x22] []
         [P_root, P_dict_value]
   \<and> lex_step payload_tokens P_root [] [CHR 0x27] [P_root, P_dict_key, P_sqs_key]
     = Step [\<lparr>ttype = StringSymbol, value' = [CHR 0x27], index = 0\<rparr>] [CHR 0x27] []
         [P_root, P_dict_key]"
  by code_simp

section \<open>The token at the cursor\<close>

lemma covers_span_contains:
  assumes "value' t \<noteq> []" and "index t + length (value' t) \<le> cursor"
  shows "covers cursor t = span_contains cursor t"
  using assms by (cases "value' t") (auto simp: covers_def span_contains_def)

lemma find_token_locate_token:
  "\<forall>t \<in> set ts. covers c t = span_contains c t \<Longrightarrow> find_token ts c k = locate_token ts c k"
  by (induction ts arbitrary: k) auto

lemma peek_lexer_token_bounds:
  "\<exists>toks. peek_lexer s = Some toks
     \<and> (\<forall>t \<in> set toks. value' t \<noteq> [] \<and> index t + length (value' t) \<le> length s)"
proof -
  obtain toks where toks: "peek_lexer s = Some toks" "spans 0 toks s"
    using peek_lexer_total [of s] by blast
  have "value' t \<noteq> [] \<and> index t + length (value' t) \<le> length s" if "t \<in> set toks" for t
    using spans_nonempty [OF toks(2) that] spans_upper [OF toks(2) that] by simp
  with toks(1) show ?thesis by blast
qed

text \<open>
  Claim C7. \<^verbatim>\<open>get_completions\<close> lexes the text before the cursor only, so every
  token it searches is not empty and ends at or before the cursor; the tokens of the main
  lexer are of this kind for every text. On such tokens the test of the source,
  \<^verbatim>\<open>t.index < cursor <= t.index + len(t.value)\<close>, holds exactly when the span from
  the start offset to the start offset plus the length of the text, both ends included,
  contains the cursor, and the search of the source finds the token that the search by
  closed spans finds. Completion dispatches on the first token whose closed span contains
  the cursor: a cursor immediately after a token selects it. When no span contains the
  cursor, completion returns nothing if the text between the end of the last token and the
  cursor contains a newline, and otherwise it runs option completion over all the tokens.
\<close>

theorem get_completions_locates_token:
  fixes tokenize url_path_lexer :: "string \<Rightarrow> token list"
  defines "before \<equiv> \<lambda>doc. take (cursor_position doc) (text' doc)"
  defines "tokens \<equiv> \<lambda>doc. tokenize (before doc)"
  assumes "\<forall>t \<in> set (tokens doc).
             value' t \<noteq> [] \<and> index t + length (value' t) \<le> length (before doc)"
  shows "(span_contains cursor t \<longleftrightarrow> index t \<le> cursor \<and> cursor \<le> index t + length (value' t))
       \<and> find_token (tokens doc) (cursor_position doc) 0
           = locate_token (tokens doc) (cursor_position doc) 0
       \<and> (i < length (tokens doc) \<and> span_contains (cursor_position doc) (tokens doc ! i)
            \<and> (\<forall>j < i. \<not> span_contains (cursor_position doc) (tokens doc ! j)) \<longrightarrow>
          get_completions tokenize url_path_lexer names specs doc =
            (if ttype (tokens doc ! i) \<in> {HttpMethod, FuncName} then
               Inr (Chain (Word_Completer [''GET'', ''POST'', ''PUT'', ''DELETE''] True)
                          (Word_Completer (map fst names) False))
             else if i > 0 \<and> ttype (tokens doc ! (i - 1)) = HttpMethod then
               complete_path url_path_lexer specs (tokens doc) doc
             else if ttype (tokens doc ! i) \<in> {Error, KeyName, Name} then
               Inr (complete_options names (butlast (tokens doc)))
             else Inr Empty_List))
       \<and> (tokens doc \<noteq> []
            \<and> (\<forall>t \<in> set (tokens doc). \<not> span_contains (cursor_position doc) t) \<longrightarrow>
          get_completions tokenize url_path_lexer names specs doc =
            (if CHR 0x0A \<in> set (drop (index (last (tokens doc)) + length (value' (last (tokens doc))))
                                    (before doc))
             then Inr Empty_List else Inr (complete_options names (tokens doc))))
       \<and> (\<exists>toks. peek_lexer (before doc) = Some toks
            \<and> (\<forall>t \<in> set toks.
                  value' t \<noteq> [] \<and> index t + length (value' t) \<le> length (before doc)))"
proof -
  let ?c = "cursor_position doc"
  have len: "length (before doc) \<le> ?c"
    by (simp add: before_def)
  have same: "covers ?c t = span_contains ?c t" if "t \<in> set (tokens doc)" for t
  proof (rule covers_span_contains)
    show "value' t \<noteq> []" using assms(3) that by blast
    show "index t + length (value' t) \<le> ?c" using assms(3) that len by fastforce
  qed
  have nth: "covers ?c (tokens doc ! j) = span_contains ?c (tokens doc ! j)"
    if "j < length (tokens doc)" for j
    using same that by simp
  have search: "find_token (tokens doc) ?c 0 = locate_token (tokens doc) ?c 0"
    using same by (intro find_token_locate_token) blast
  have found: "get_completions tokenize url_path_lexer names specs doc =
            (if ttype (tokens doc ! i) \<in> {HttpMethod, FuncName} then
               Inr (Chain (Word_Completer [''GET'', ''POST'', ''PUT'', ''DELETE''] True)
                          (Word_Completer (map fst names) False))
             else if i > 0 \<and> ttype (tokens doc ! (i - 1)) = HttpMethod then
               complete_path url_path_lexer specs (tokens doc) doc
             else if ttype (tokens doc ! i) \<in> {Error, KeyName, Name} then
               Inr (complete_options names (butlast (tokens doc)))
             else Inr Empty_List)"
    if h: "i < length (tokens doc)" "span_contains ?c (tokens doc ! i)"
      "\<forall>j < i. \<not> span_contains ?c (tokens doc ! j)"
  proof (rule get_completions_found_branch)
    show "tokenize (take ?c (text' doc)) = tokens doc"
      by (simp add: tokens_def before_def)
    show "i < length (tokens doc)" by (rule h(1))
    show "covers ?c (tokens doc ! i)" using h(1,2) nth by simp
    show "\<forall>j < i. \<not> covers ?c (tokens doc ! j)" using h(1,3) nth by simp
  qed
  have none: "get_completions tokenize url_path_lexer names specs doc =
            (if CHR 0x0A \<in> set (drop (index (last (tokens doc)) + length (value' (last (tokens doc))))
                                    (before doc))
             then Inr Empty_List else Inr (complete_options names (tokens doc)))"
    if h: "tokens doc \<noteq> []" "\<forall>t \<in> set (tokens doc). \<not> span_contains ?c t"
    unfolding before_def
  proof (rule get_completions_else_branch)
    show "tokenize (take ?c (text' doc)) = tokens doc"
      by (simp add: tokens_def before_def)
    show "tokens doc \<noteq> []" by (rule h(1))
    show "\<forall>t \<in> set (tokens doc). \<not> covers ?c t" using h(2) same by simp
  qed
  have lexer: "\<exists>toks. peek_lexer (before doc) = Some toks
            \<and> (\<forall>t \<in> set toks.
                  value' t \<noteq> [] \<and> index t + length (value' t) \<le> length (before doc))"
    by (rule peek_lexer_token_bounds)
  from search found none lexer show ?thesis
    by (simp add: span_contains_def)
qed

theorem get_completions_locates_token_witness:
  "get_completions (\<lambda>s. [\<lparr>ttype = HttpMethod, value' = ''GET'', index = 0\<rparr>]) (\<lambda>s. [])
     [] [] \<lparr>text' = ''GET /x'', cursor_position = 3\<rparr>
     = Inr (Chain (Word_Completer [''GET'', ''POST'', ''PUT'', ''DELETE''] True)
                  (Word_Completer [] False))
   \<and> get_completions
       (\<lambda>s. [\<lparr>ttype = HttpMethod, value' = ''GET'', index = 0\<rparr>,
             \<lparr>ttype = Literal, value' = ''/x'', index = 4\<rparr>]) (\<lambda>s. [])
       [] [] \<lparr>text' = ''GET /x '', cursor_position = 7\<rparr>
     = Inr (Word_Completer [''conn='', ''runas=''] False)
   \<and> get_completions
       (\<lambda>s. [\<lparr>ttype = HttpMethod, value' = ''GET'', index = 0\<rparr>,
             \<lparr>ttype = Literal, value' = ''/x'', index = 4\<rparr>]) (\<lambda>s. [])
       [] [] \<lparr>text' = ''GET /x'' @ [CHR 0x0A], cursor_position = 7\<rparr>
     = Inr Empty_List"
  using
    get_completions_locates_token [where i = 0
      and tokenize = "\<lambda>s. [\<lparr>ttype = HttpMethod, value' = ''GET'', index = 0\<rparr>]"
      and doc = "\<lparr>text' = ''GET /x'', cursor_position = 3\<rparr>"
      and url_path_lexer = "\<lambda>s. []" and names = "[]" and specs = "[]"]
    get_completions_locates_token [where
      tokenize = "\<lambda>s. [\<lparr>ttype = HttpMethod, value' = ''GET'', index = 0\<rparr>,
             \<lparr>ttype = Literal, value' = ''/x'', index = 4\<rparr>]"
      and doc = "\<lparr>text' = ''GET /x '', cursor_position = 7\<rparr>"
      and url_path_lexer = "\<lambda>s. []" and names = "[]" and specs = "[]"]
    get_completions_locates_token [where
      tokenize = "\<lambda>s. [\<lparr>ttype = HttpMethod, value' = ''GET'', index = 0\<rparr>,
             \<lparr>ttype = Literal, value' = ''/x'', index = 4\<rparr>]"
      and doc = "\<lparr>text' = ''GET /x'' @ [CHR 0x0A], cursor_position = 7\<rparr>"
      and url_path_lexer = "\<lambda>s. []" and names = "[]" and specs = "[]"]
  by (simp add: complete_options_def span_contains_def)

end
